theory Spec2Isabelle
  imports Main
begin

section \<open>Ids, arrays and errors\<close>

text \<open>
  \<^verbatim>\<open>dgl_id_t\<close> is an unsigned 64-bit integer and \<^verbatim>\<open>IdArray\<close> a dense 1-D buffer of
  ids.  Ids are natural numbers here; the one place where the source relies on
  wrap-around is the edge id \<^verbatim>\<open>-1\<close> of a synthetic self loop, which is the value
  \<open>2^64 - 1\<close> of \<^verbatim>\<open>dgl_id_t\<close> (\<open>minus_one_id\<close> below).
\<close>

type_synonym dgl_id_t = nat
type_synonym dgl_type_t = nat
type_synonym IdArray = "nat list"

definition minus_one_id :: dgl_id_t where
  "minus_one_id = 2 ^ 64 - 1"

declare minus_one_id_def [code del]

text \<open>
  Every \<^verbatim>\<open>CHECK\<close> and \<^verbatim>\<open>LOG(FATAL)\<close> of the source aborts the operation; each is a
  constructor of \<open>error\<close>.  \<open>OutOfBounds\<close> stands for a read outside an array, which
  the C++ does not detect.
\<close>

datatype error =
    InvalidSrcVertexId nat
  | InvalidDstVertexId nat
  | InvalidEdgeId
  | NotValidAdjFormat
  | UnsupportedAdjFormat
  | NoGraphStructure
  | EdgeTypeNumberMismatch
  | InputListSizeMismatch
  | MetaGraphSizeMismatch
  | EmptyHeterograph
  | MismatchNumVertices nat
  | ProbabilityNotFloat
  | ProbabilityNot1D
  | ProbabilityBadFloatWidth
  | ProbabilityShapeMismatch
  | ProbabilityNotContiguous
  | UnsupportedNeighType
  | NotSupported32Bit
  | SanityCheckFailed
  | DrawsExhausted
  | DivideByZero
  | InvalidVertexType nat
  | NegativeLength
  | OutOfBounds

section \<open>Array primitives\<close>

text \<open>
  The typed-array runtime (\<^verbatim>\<open>aten::\<close>) is not part of the sources at hand; the
  primitives used by the graph code are modelled from the specification.
\<close>

text \<open>Modelled from the spec: \<^verbatim>\<open>hstack(a,b)\<close>, the concatenation of two 1-D arrays.\<close>

definition HStack :: "IdArray \<Rightarrow> IdArray \<Rightarrow> IdArray" where
  "HStack a b = a @ b"

text \<open>Modelled from the spec: \<^verbatim>\<open>index_select(arr, idx)\<close> (gather); an index outside
  the array aborts.\<close>

definition IndexSelect :: "IdArray \<Rightarrow> IdArray \<Rightarrow> error + IdArray" where
  "IndexSelect arr idx =
     (if \<forall>i \<in> set idx. i < length arr then Inr (map (\<lambda>i. arr ! i) idx)
      else Inl InvalidEdgeId)"

record COOMatrix =
  coo_num_rows :: nat
  coo_num_cols :: nat
  row :: IdArray
  col :: IdArray

record CSRMatrix =
  num_rows :: nat
  num_cols :: nat
  indptr :: IdArray
  indices :: IdArray
  data :: IdArray

text \<open>Position of the first occurrence of an id in an array.\<close>

fun index_of :: "nat \<Rightarrow> nat list \<Rightarrow> nat" where
  "index_of x [] = 0"
| "index_of x (y # ys) = (if x = y then 0 else Suc (index_of x ys))"

text \<open>Modelled from the spec: \<^verbatim>\<open>coo_to_csr\<close>.  Row \<open>r\<close> of the result lists the
  edges whose row is \<open>r\<close> in their original order; \<open>data\<close> carries their ids.  The
  variant with an explicit id array serves the transposition.\<close>

definition coo_to_csr_with ::
  "nat \<Rightarrow> nat \<Rightarrow> IdArray \<Rightarrow> IdArray \<Rightarrow> IdArray \<Rightarrow> CSRMatrix" where
  "coo_to_csr_with nr nc rw cl ids =
     (let ord = concat (map (\<lambda>r. filter (\<lambda>e. rw ! e = r) [0..<length rw]) [0..<nr])
      in \<lparr> num_rows = nr, num_cols = nc,
           indptr = map (\<lambda>r. length (filter (\<lambda>e. rw ! e < r) [0..<length rw])) [0..<Suc nr],
           indices = map (\<lambda>e. cl ! e) ord,
           data = map (\<lambda>e. ids ! e) ord \<rparr>)"

definition COOToCSR :: "COOMatrix \<Rightarrow> CSRMatrix" where
  "COOToCSR A =
     coo_to_csr_with (coo_num_rows A) (coo_num_cols A) (row A) (col A) [0..<length (row A)]"

text \<open>The row of every stored entry of a CSR matrix, in storage order.\<close>

definition csr_rows :: "CSRMatrix \<Rightarrow> IdArray" where
  "csr_rows A =
     concat (map (\<lambda>r. replicate (indptr A ! Suc r - indptr A ! r) r) [0..<num_rows A])"

text \<open>The stored entries of a CSR matrix in storage order, each with its row, its
  column and its edge id; and a COO matrix with rows and columns exchanged.\<close>

definition csr_entries :: "CSRMatrix \<Rightarrow> (nat \<times> nat \<times> nat) list" where
  "csr_entries A = zip (csr_rows A) (zip (indices A) (data A))"

definition coo_swap :: "COOMatrix \<Rightarrow> COOMatrix" where
  "coo_swap c = \<lparr> coo_num_rows = coo_num_cols c, coo_num_cols = coo_num_rows c,
                  row = col c, col = row c \<rparr>"

text \<open>Modelled from the spec: \<^verbatim>\<open>csr_transpose\<close>.\<close>

definition CSRTranspose :: "CSRMatrix \<Rightarrow> CSRMatrix" where
  "CSRTranspose A =
     coo_to_csr_with (num_cols A) (num_rows A) (indices A) (csr_rows A) (data A)"

text \<open>Modelled from the spec: \<^verbatim>\<open>csr_to_coo(csr, with_data_order)\<close>.  With the flag
  set, entry \<open>e\<close> of the result is the edge whose id is \<open>e\<close>.\<close>

definition CSRToCOO :: "CSRMatrix \<Rightarrow> bool \<Rightarrow> COOMatrix" where
  "CSRToCOO A data_as_order =
     (if data_as_order then
        \<lparr> coo_num_rows = num_rows A, coo_num_cols = num_cols A,
          row = map (\<lambda>e. csr_rows A ! index_of e (data A)) [0..<length (indices A)],
          col = map (\<lambda>e. indices A ! index_of e (data A)) [0..<length (indices A)] \<rparr>
      else
        \<lparr> coo_num_rows = num_rows A, coo_num_cols = num_cols A,
          row = csr_rows A, col = indices A \<rparr>)"

text \<open>Modelled from the spec: \<^verbatim>\<open>csr_is_nonzero(csr,r,c)\<close> and its vector form.\<close>

definition CSRIsNonZero :: "CSRMatrix \<Rightarrow> nat \<Rightarrow> nat \<Rightarrow> bool" where
  "CSRIsNonZero A r c =
     (c \<in> set (take (indptr A ! Suc r - indptr A ! r) (drop (indptr A ! r) (indices A))))"

definition CSRIsNonZeroVec :: "CSRMatrix \<Rightarrow> IdArray \<Rightarrow> IdArray \<Rightarrow> bool list" where
  "CSRIsNonZeroVec A rs cs = map (\<lambda>(r, c). CSRIsNonZero A r c) (zip rs cs)"

section \<open>Bipartite relation graph (bipartite.cc)\<close>

subsection \<open>The COO and CSR views\<close>

definition kSrcVType :: dgl_type_t where "kSrcVType = 0"
definition kDstVType :: dgl_type_t where "kDstVType = 1"

text \<open>\<^verbatim>\<open>Bipartite::COO::GetAdj\<close>\<close>

definition COO_GetAdj :: "COOMatrix \<Rightarrow> dgl_type_t \<Rightarrow> bool \<Rightarrow> string \<Rightarrow> error + IdArray list" where
  "COO_GetAdj adj etype transpose_flag fmt =
     (if fmt \<noteq> ''coo'' then Inl NotValidAdjFormat
      else if transpose_flag then Inr [HStack (col adj) (row adj)]
      else Inr [HStack (row adj) (col adj)])"

text \<open>\<^verbatim>\<open>Bipartite::COO::FindEdges\<close>\<close>

definition COO_FindEdges ::
  "COOMatrix \<Rightarrow> dgl_type_t \<Rightarrow> IdArray \<Rightarrow> error + (IdArray \<times> IdArray \<times> IdArray)" where
  "COO_FindEdges adj etype eids =
     (case IndexSelect (row adj) eids of
        Inl e \<Rightarrow> Inl e
      | Inr s \<Rightarrow>
          (case IndexSelect (col adj) eids of
             Inl e \<Rightarrow> Inl e
           | Inr d \<Rightarrow> Inr (s, d, eids)))"

text \<open>\<^verbatim>\<open>Bipartite::COO::NumVertices\<close>; a vertex type other than the two of a bipartite
  graph is fatal.\<close>

definition COO_NumVertices :: "COOMatrix \<Rightarrow> dgl_type_t \<Rightarrow> error + nat" where
  "COO_NumVertices adj vtype =
     (if vtype = kSrcVType then Inr (coo_num_rows adj)
      else if vtype = kDstVType then Inr (coo_num_cols adj)
      else Inl (InvalidVertexType vtype))"

text \<open>\<^verbatim>\<open>Bipartite::CSR::NumVertices\<close> and \<^verbatim>\<open>HasVertex\<close>\<close>

definition CSR_NumVertices :: "CSRMatrix \<Rightarrow> dgl_type_t \<Rightarrow> error + nat" where
  "CSR_NumVertices adj vtype =
     (if vtype = kSrcVType then Inr (num_rows adj)
      else if vtype = kDstVType then Inr (num_cols adj)
      else Inl (InvalidVertexType vtype))"

definition CSR_HasVertex :: "CSRMatrix \<Rightarrow> dgl_type_t \<Rightarrow> dgl_id_t \<Rightarrow> error + bool" where
  "CSR_HasVertex adj vtype vid =
     (case CSR_NumVertices adj vtype of Inl e \<Rightarrow> Inl e | Inr n \<Rightarrow> Inr (vid < n))"

text \<open>\<^verbatim>\<open>Bipartite::CSR::HasEdgeBetween\<close> and \<^verbatim>\<open>HasEdgesBetween\<close>\<close>

definition CSR_HasEdgeBetween ::
  "CSRMatrix \<Rightarrow> dgl_type_t \<Rightarrow> dgl_id_t \<Rightarrow> dgl_id_t \<Rightarrow> error + bool" where
  "CSR_HasEdgeBetween adj etype src dst =
     (case CSR_HasVertex adj 0 src of
        Inl e \<Rightarrow> Inl e
      | Inr has_src \<Rightarrow>
          if \<not> has_src then Inl (InvalidSrcVertexId src)
          else
            (case CSR_HasVertex adj 1 dst of
               Inl e \<Rightarrow> Inl e
             | Inr has_dst \<Rightarrow>
                 if \<not> has_dst then Inl (InvalidDstVertexId dst)
                 else Inr (CSRIsNonZero adj src dst)))"

definition CSR_HasEdgesBetween ::
  "CSRMatrix \<Rightarrow> dgl_type_t \<Rightarrow> IdArray \<Rightarrow> IdArray \<Rightarrow> error + bool list" where
  "CSR_HasEdgesBetween adj etype src_ids dst_ids = Inr (CSRIsNonZeroVec adj src_ids dst_ids)"

text \<open>\<^verbatim>\<open>Bipartite::CSR::GetAdj\<close>\<close>

definition CSR_GetAdj :: "CSRMatrix \<Rightarrow> dgl_type_t \<Rightarrow> bool \<Rightarrow> string \<Rightarrow> error + IdArray list" where
  "CSR_GetAdj adj etype transpose_flag fmt =
     (if \<not> (\<not> transpose_flag \<and> fmt = ''csr'') then Inl NotValidAdjFormat
      else Inr [indptr adj, indices adj, data adj])"

subsection \<open>The bipartite graph and its lazily materialised views\<close>

text \<open>
  A \<^verbatim>\<open>Bipartite\<close> holds up to three views of one edge set.  A missing view is a null
  pointer in the source and \<open>None\<close> here.  The getters store the view they build in
  the object (through \<^verbatim>\<open>const_cast\<close>), so each returns the updated graph as well.
\<close>

record Bipartite =
  in_csr :: "CSRMatrix option"
  out_csr :: "CSRMatrix option"
  coo :: "COOMatrix option"

text \<open>The constructor: \<^verbatim>\<open>CHECK(GetAny())\<close>.\<close>

definition Bipartite_new ::
  "CSRMatrix option \<Rightarrow> CSRMatrix option \<Rightarrow> COOMatrix option \<Rightarrow> error + Bipartite" where
  "Bipartite_new ic oc c =
     (if ic = None \<and> oc = None \<and> c = None then Inl NoGraphStructure
      else Inr \<lparr> in_csr = ic, out_csr = oc, coo = c \<rparr>)"

definition CreateFromCOO :: "nat \<Rightarrow> nat \<Rightarrow> IdArray \<Rightarrow> IdArray \<Rightarrow> Bipartite" where
  "CreateFromCOO num_src num_dst rw cl =
     \<lparr> in_csr = None, out_csr = None,
       coo = Some \<lparr> coo_num_rows = num_src, coo_num_cols = num_dst, row = rw, col = cl \<rparr> \<rparr>"

definition CreateFromCSR ::
  "nat \<Rightarrow> nat \<Rightarrow> IdArray \<Rightarrow> IdArray \<Rightarrow> IdArray \<Rightarrow> Bipartite" where
  "CreateFromCSR num_src num_dst ip ix edge_ids =
     \<lparr> in_csr = None,
       out_csr = Some \<lparr> num_rows = num_src, num_cols = num_dst,
                        indptr = ip, indices = ix, data = edge_ids \<rparr>,
       coo = None \<rparr>"

definition GetInCSR :: "Bipartite \<Rightarrow> error + (CSRMatrix \<times> Bipartite)" where
  "GetInCSR g =
     (case in_csr g of
        Some c \<Rightarrow> Inr (c, g)
      | None \<Rightarrow>
          (case out_csr g of
             Some oc \<Rightarrow>
               (let newadj = CSRTranspose oc in Inr (newadj, g\<lparr>in_csr := Some newadj\<rparr>))
           | None \<Rightarrow>
               (case coo g of
                  None \<Rightarrow> Inl NoGraphStructure
                | Some adj \<Rightarrow>
                    (let newadj = COOToCSR
                           \<lparr> coo_num_rows = coo_num_cols adj, coo_num_cols = coo_num_rows adj,
                             row = col adj, col = row adj \<rparr>
                     in Inr (newadj, g\<lparr>in_csr := Some newadj\<rparr>)))))"

definition GetOutCSR :: "Bipartite \<Rightarrow> error + (CSRMatrix \<times> Bipartite)" where
  "GetOutCSR g =
     (case out_csr g of
        Some c \<Rightarrow> Inr (c, g)
      | None \<Rightarrow>
          (case in_csr g of
             Some ic \<Rightarrow>
               (let newadj = CSRTranspose ic in Inr (newadj, g\<lparr>out_csr := Some newadj\<rparr>))
           | None \<Rightarrow>
               (case coo g of
                  None \<Rightarrow> Inl NoGraphStructure
                | Some adj \<Rightarrow>
                    (let newadj = COOToCSR adj
                     in Inr (newadj, g\<lparr>out_csr := Some newadj\<rparr>)))))"

definition GetCOO :: "Bipartite \<Rightarrow> error + (COOMatrix \<times> Bipartite)" where
  "GetCOO g =
     (case coo g of
        Some c \<Rightarrow> Inr (c, g)
      | None \<Rightarrow>
          (case in_csr g of
             Some ic \<Rightarrow>
               (let newadj = CSRToCOO ic True;
                    c = \<lparr> coo_num_rows = coo_num_cols newadj, coo_num_cols = coo_num_rows newadj,
                          row = col newadj, col = row newadj \<rparr>
                in Inr (c, g\<lparr>coo := Some c\<rparr>))
           | None \<Rightarrow>
               (case out_csr g of
                  None \<Rightarrow> Inl NoGraphStructure
                | Some oc \<Rightarrow>
                    (let newadj = CSRToCOO oc True
                     in Inr (newadj, g\<lparr>coo := Some newadj\<rparr>)))))"

text \<open>\<^verbatim>\<open>Bipartite::NumVertices\<close>, which asks \<^verbatim>\<open>GetAny()\<close>: the in-CSR first, then the
  out-CSR, then the COO.  The rows of an in-CSR are the destination vertices.\<close>

definition Bipartite_NumVertices :: "Bipartite \<Rightarrow> dgl_type_t \<Rightarrow> error + nat" where
  "Bipartite_NumVertices g vtype =
     (case in_csr g of
        Some c \<Rightarrow> CSR_NumVertices c vtype
      | None \<Rightarrow>
          (case out_csr g of
             Some c \<Rightarrow> CSR_NumVertices c vtype
           | None \<Rightarrow>
               (case coo g of
                  Some c \<Rightarrow> COO_NumVertices c vtype
                | None \<Rightarrow> Inl NoGraphStructure)))"

text \<open>\<^verbatim>\<open>Bipartite::HasEdgeBetween\<close> and \<^verbatim>\<open>Bipartite::HasEdgesBetween\<close>\<close>

definition HasEdgeBetween ::
  "Bipartite \<Rightarrow> dgl_type_t \<Rightarrow> dgl_id_t \<Rightarrow> dgl_id_t \<Rightarrow> error + (bool \<times> Bipartite)" where
  "HasEdgeBetween g etype src dst =
     (case in_csr g of
        Some ic \<Rightarrow>
          (case CSR_HasEdgeBetween ic etype dst src of
             Inl e \<Rightarrow> Inl e | Inr b \<Rightarrow> Inr (b, g))
      | None \<Rightarrow>
          (case GetOutCSR g of
             Inl e \<Rightarrow> Inl e
           | Inr (oc, g') \<Rightarrow>
               (case CSR_HasEdgeBetween oc etype src dst of
                  Inl e \<Rightarrow> Inl e | Inr b \<Rightarrow> Inr (b, g'))))"

definition HasEdgesBetween ::
  "Bipartite \<Rightarrow> dgl_type_t \<Rightarrow> IdArray \<Rightarrow> IdArray \<Rightarrow> error + (bool list \<times> Bipartite)" where
  "HasEdgesBetween g etype src dst =
     (case in_csr g of
        Some ic \<Rightarrow>
          (case CSR_HasEdgesBetween ic etype dst src of
             Inl e \<Rightarrow> Inl e | Inr b \<Rightarrow> Inr (b, g))
      | None \<Rightarrow>
          (case GetOutCSR g of
             Inl e \<Rightarrow> Inl e
           | Inr (oc, g') \<Rightarrow>
               (case CSR_HasEdgesBetween oc etype src dst of
                  Inl e \<Rightarrow> Inl e | Inr b \<Rightarrow> Inr (b, g'))))"

text \<open>\<^verbatim>\<open>Bipartite::FindEdges\<close>\<close>

definition FindEdges ::
  "Bipartite \<Rightarrow> dgl_type_t \<Rightarrow> IdArray \<Rightarrow>
   error + ((IdArray \<times> IdArray \<times> IdArray) \<times> Bipartite)" where
  "FindEdges g etype eids =
     (case GetCOO g of
        Inl e \<Rightarrow> Inl e
      | Inr (c, g') \<Rightarrow>
          (case COO_FindEdges c etype eids of
             Inl e \<Rightarrow> Inl e | Inr ea \<Rightarrow> Inr (ea, g')))"

text \<open>\<^verbatim>\<open>Bipartite::GetAdj\<close>\<close>

definition GetAdj ::
  "Bipartite \<Rightarrow> dgl_type_t \<Rightarrow> bool \<Rightarrow> string \<Rightarrow> error + (IdArray list \<times> Bipartite)" where
  "GetAdj g etype transpose_flag fmt =
     (if fmt = ''csr'' then
        (if transpose_flag then
           (case GetOutCSR g of
              Inl e \<Rightarrow> Inl e
            | Inr (c, g') \<Rightarrow>
                (case CSR_GetAdj c etype False ''csr'' of
                   Inl e \<Rightarrow> Inl e | Inr r \<Rightarrow> Inr (r, g')))
         else
           (case GetInCSR g of
              Inl e \<Rightarrow> Inl e
            | Inr (c, g') \<Rightarrow>
                (case CSR_GetAdj c etype False ''csr'' of
                   Inl e \<Rightarrow> Inl e | Inr r \<Rightarrow> Inr (r, g'))))
      else if fmt = ''coo'' then
        (case GetCOO g of
           Inl e \<Rightarrow> Inl e
         | Inr (c, g') \<Rightarrow>
             (case COO_GetAdj c etype (\<not> transpose_flag) fmt of
                Inl e \<Rightarrow> Inl e | Inr r \<Rightarrow> Inr (r, g')))
      else Inl UnsupportedAdjFormat)"

section \<open>Heterograph (heterograph.cc)\<close>

subsection \<open>Meta-graph\<close>

text \<open>Modelled from the spec: the meta-graph, a small immutable directed graph whose
  vertices are vertex-type ids and whose edges are edge-type ids; edge \<open>t\<close> names the
  (srcType, dstType) pair of relation \<open>t\<close>.  It is an \<^verbatim>\<open>ImmutableGraph\<close>, whose
  implementation is not among the sources at hand.\<close>

record MetaGraph =
  mg_num_vertices :: nat
  mg_edges :: "(dgl_type_t \<times> dgl_type_t) list"

definition mg_NumEdges :: "MetaGraph \<Rightarrow> nat" where
  "mg_NumEdges mg = length (mg_edges mg)"

definition mg_FindEdge :: "MetaGraph \<Rightarrow> dgl_type_t \<Rightarrow> error + (dgl_type_t \<times> dgl_type_t)" where
  "mg_FindEdge mg etype =
     (if etype < length (mg_edges mg) then Inr (mg_edges mg ! etype) else Inl InvalidEdgeId)"

definition mg_OutEdgeVec :: "MetaGraph \<Rightarrow> dgl_type_t \<Rightarrow> dgl_type_t list" where
  "mg_OutEdgeVec mg vtype =
     filter (\<lambda>etype. fst (mg_edges mg ! etype) = vtype) [0..<length (mg_edges mg)]"

subsection \<open>Construction\<close>

record HeteroGraph =
  meta_graph :: MetaGraph
  relation_graphs :: "Bipartite list"
  num_verts_per_type :: "int list"

text \<open>The inner loop of the constructor: the relations leaving \<open>vtype\<close> must report
  the same number of source vertices.  \<open>cur\<close> is \<^verbatim>\<open>num_verts_per_type_[vtype]\<close>,
  initially \<open>-1\<close>.\<close>

fun check_num_verts ::
  "Bipartite list \<Rightarrow> dgl_type_t \<Rightarrow> dgl_type_t list \<Rightarrow> int \<Rightarrow> error + int" where
  "check_num_verts rel_graphs vtype [] cur = Inr cur"
| "check_num_verts rel_graphs vtype (etype # es) cur =
     (case Bipartite_NumVertices (rel_graphs ! etype) kSrcVType of
        Inl e \<Rightarrow> Inl e
      | Inr nv \<Rightarrow>
          (if cur < 0 then check_num_verts rel_graphs vtype es (int nv)
           else if cur \<noteq> int nv then Inl (MismatchNumVertices vtype)
           else check_num_verts rel_graphs vtype es cur))"

text \<open>The outer loop over the vertex types.\<close>

fun create_num_verts ::
  "MetaGraph \<Rightarrow> Bipartite list \<Rightarrow> dgl_type_t list \<Rightarrow> error + int list" where
  "create_num_verts mg rel_graphs [] = Inr []"
| "create_num_verts mg rel_graphs (vtype # vs) =
     (case check_num_verts rel_graphs vtype (mg_OutEdgeVec mg vtype) (- 1) of
        Inl e \<Rightarrow> Inl e
      | Inr n \<Rightarrow>
          (case create_num_verts mg rel_graphs vs of
             Inl e \<Rightarrow> Inl e
           | Inr ns \<Rightarrow> Inr (n # ns)))"

text \<open>\<^verbatim>\<open>HeteroGraph::HeteroGraph\<close>.  A relation graph is a \<open>Bipartite\<close> by its type
  here, so the two checks on the number of its vertex and edge types always pass.\<close>

definition HeteroGraph_new :: "MetaGraph \<Rightarrow> Bipartite list \<Rightarrow> error + HeteroGraph" where
  "HeteroGraph_new mg rel_graphs =
     (if mg_NumEdges mg \<noteq> length rel_graphs then Inl MetaGraphSizeMismatch
      else if rel_graphs = [] then Inl EmptyHeterograph
      else
        (case create_num_verts mg rel_graphs [0..<mg_num_vertices mg] of
           Inl e \<Rightarrow> Inl e
         | Inr ns \<Rightarrow>
             Inr \<lparr> meta_graph = mg, relation_graphs = rel_graphs, num_verts_per_type = ns \<rparr>))"

text \<open>Modelled from the spec: \<^verbatim>\<open>num_verts_per_type[v]\<close> is the number of vertices of
  type \<open>v\<close>.  \<^verbatim>\<open>HeteroGraph::NumVertices\<close> is declared in a header that is not among the
  sources at hand.\<close>

definition HeteroGraph_NumVertices :: "HeteroGraph \<Rightarrow> dgl_type_t \<Rightarrow> int" where
  "HeteroGraph_NumVertices hg vtype = num_verts_per_type hg ! vtype"

definition NumVertexTypes :: "HeteroGraph \<Rightarrow> nat" where
  "NumVertexTypes hg = mg_num_vertices (meta_graph hg)"

definition NumEdgeTypes :: "HeteroGraph \<Rightarrow> nat" where
  "NumEdgeTypes hg = mg_NumEdges (meta_graph hg)"

text \<open>The number of source and of destination vertices a relation graph reports.\<close>

definition rel_src_count :: "Bipartite \<Rightarrow> error + nat" where
  "rel_src_count g = Bipartite_NumVertices g kSrcVType"

definition rel_dst_count :: "Bipartite \<Rightarrow> error + nat" where
  "rel_dst_count g = Bipartite_NumVertices g kDstVType"

subsection \<open>Edge subgraph without preserved nodes\<close>

text \<open>
  An \<^verbatim>\<open>IdArray\<close> is a shared handle: the arrays that \<^verbatim>\<open>FindEdges\<close> returns are
  pushed into \<^verbatim>\<open>vtype2incnodes\<close> and kept in \<^verbatim>\<open>subedges\<close>, and \<^verbatim>\<open>aten::Relabel_\<close>
  rewrites them in place.  The model makes the sharing explicit: \<^verbatim>\<open>subedges\<close> is the
  store of the arrays, and \<^verbatim>\<open>vtype2incnodes\<close> holds references into it.  The
  reference \<open>(t, False)\<close> is the source array of relation \<open>t\<close>, \<open>(t, True)\<close> its
  destination array.
\<close>

type_synonym edge_store = "(IdArray \<times> IdArray) list"
type_synonym array_ref = "nat \<times> bool"

definition deref :: "edge_store \<Rightarrow> array_ref \<Rightarrow> IdArray" where
  "deref st r = (if snd r then snd (st ! fst r) else fst (st ! fst r))"

definition assign :: "edge_store \<Rightarrow> array_ref \<Rightarrow> IdArray \<Rightarrow> edge_store" where
  "assign st r xs =
     (if snd r then st[fst r := (fst (st ! fst r), xs)]
      else st[fst r := (xs, snd (st ! fst r))])"

text \<open>The union of the ids seen so far, extended by one more array in first-seen
  order.\<close>

fun relabel_add :: "nat list \<Rightarrow> IdArray \<Rightarrow> nat list" where
  "relabel_add m [] = m"
| "relabel_add m (x # xs) = relabel_add (if x \<in> set m then m else m @ [x]) xs"

text \<open>Modelled from the spec: \<^verbatim>\<open>relabel_inplace(list_of_arrays) \<rightarrow> mapping\<close> computes
  the union in first-seen order, rewrites each input to densified indices and
  returns the ordered union.\<close>

definition Relabel_inplace :: "edge_store \<Rightarrow> array_ref list \<Rightarrow> IdArray \<times> edge_store" where
  "Relabel_inplace st refs =
     (let mapping = foldl relabel_add [] (map (deref st) refs)
      in (mapping,
          fold (\<lambda>r st'. assign st' r (map (\<lambda>x. index_of x mapping) (deref st r))) refs st))"

record HeteroSubgraph =
  graph :: HeteroGraph
  induced_vertices :: "IdArray list"
  induced_edges :: "IdArray list"

text \<open>Steps (1) and (2): slice the selected edges of every relation out of its COO
  view and file the endpoint arrays under their vertex types.  \<^verbatim>\<open>FindEdges\<close> may
  materialise the COO view of a relation, so the relations are threaded through.\<close>

fun slice_edges ::
  "MetaGraph \<Rightarrow> IdArray list \<Rightarrow> dgl_type_t list \<Rightarrow> Bipartite list \<Rightarrow>
   array_ref list list \<Rightarrow> edge_store \<Rightarrow>
   error + (Bipartite list \<times> array_ref list list \<times> edge_store)" where
  "slice_edges mg eids [] rels vtype2incnodes subedges =
     Inr (rels, vtype2incnodes, subedges)"
| "slice_edges mg eids (etype # es) rels vtype2incnodes subedges =
     (case mg_FindEdge mg etype of
        Inl e \<Rightarrow> Inl e
      | Inr (src_vtype, dst_vtype) \<Rightarrow>
          (case FindEdges (rels ! etype) 0 (eids ! etype) of
             Inl e \<Rightarrow> Inl e
           | Inr ((s, d, ids), g') \<Rightarrow>
               (if \<not> (src_vtype < length vtype2incnodes \<and> dst_vtype < length vtype2incnodes)
                then Inl OutOfBounds
                else
                  (let v1 = vtype2incnodes
                              [src_vtype := vtype2incnodes ! src_vtype @ [(etype, False)]];
                       v2 = v1[dst_vtype := v1 ! dst_vtype @ [(etype, True)]]
                   in slice_edges mg eids es (rels[etype := g']) v2
                        (subedges[etype := (s, d)])))))"

text \<open>Step (3): relabel the arrays of every vertex type.\<close>

fun relabel_vtypes :: "array_ref list list \<Rightarrow> edge_store \<Rightarrow> IdArray list \<times> edge_store" where
  "relabel_vtypes [] st = ([], st)"
| "relabel_vtypes (refs # rest) st =
     (case Relabel_inplace st refs of
        (mapping, st') \<Rightarrow>
          (case relabel_vtypes rest st' of
             (ms, st'') \<Rightarrow> (mapping # ms, st'')))"

text \<open>Step (4): build the relation graphs from the relabelled edges.\<close>

fun build_subrels ::
  "MetaGraph \<Rightarrow> IdArray list \<Rightarrow> edge_store \<Rightarrow> dgl_type_t list \<Rightarrow> error + Bipartite list" where
  "build_subrels mg iv subedges [] = Inr []"
| "build_subrels mg iv subedges (etype # es) =
     (case mg_FindEdge mg etype of
        Inl e \<Rightarrow> Inl e
      | Inr (src_vtype, dst_vtype) \<Rightarrow>
          (case build_subrels mg iv subedges es of
             Inl e \<Rightarrow> Inl e
           | Inr rs \<Rightarrow>
               Inr (CreateFromCOO (length (iv ! src_vtype)) (length (iv ! dst_vtype))
                      (fst (subedges ! etype)) (snd (subedges ! etype)) # rs)))"

text \<open>\<^verbatim>\<open>EdgeSubgraphNoPreserveNodes\<close>; the second component of the result is the
  heterograph itself, whose relations may have gained a COO view.\<close>

definition EdgeSubgraphNoPreserveNodes ::
  "HeteroGraph \<Rightarrow> IdArray list \<Rightarrow> error + (HeteroSubgraph \<times> HeteroGraph)" where
  "EdgeSubgraphNoPreserveNodes hg eids =
     (if length eids \<noteq> NumEdgeTypes hg then Inl InputListSizeMismatch
      else
        (case slice_edges (meta_graph hg) eids [0..<NumEdgeTypes hg] (relation_graphs hg)
                (replicate (NumVertexTypes hg) []) (replicate (NumEdgeTypes hg) ([], [])) of
           Inl e \<Rightarrow> Inl e
         | Inr (rels, vtype2incnodes, subedges) \<Rightarrow>
             (case relabel_vtypes vtype2incnodes subedges of
                (iv, subedges') \<Rightarrow>
                  (case build_subrels (meta_graph hg) iv subedges' [0..<NumEdgeTypes hg] of
                     Inl e \<Rightarrow> Inl e
                   | Inr subrels \<Rightarrow>
                       (case HeteroGraph_new (meta_graph hg) subrels of
                          Inl e \<Rightarrow> Inl e
                        | Inr sg \<Rightarrow>
                            Inr (\<lparr> graph = sg, induced_vertices = iv, induced_edges = eids \<rparr>,
                                 hg\<lparr>relation_graphs := rels\<rparr>))))))"

text \<open>The union of a list of ids in first-seen order: every id once, at the place
  of its first occurrence.\<close>

definition first_seen_union :: "nat list \<Rightarrow> nat list" where
  "first_seen_union xs = rev (remdups (rev xs))"

text \<open>Following the spec: the source and the destination of every edge of a
  relation, by edge id.  They are the arrays of its COO view; a relation that holds
  none derives them from its in-CSR, rows and columns swapped, or else from its
  out-CSR.\<close>

definition edge_ends :: "Bipartite \<Rightarrow> (IdArray \<times> IdArray) option" where
  "edge_ends g =
     (case coo g of
        Some c \<Rightarrow> Some (row c, col c)
      | None \<Rightarrow>
          (case in_csr g of
             Some ic \<Rightarrow> Some (col (CSRToCOO ic True), row (CSRToCOO ic True))
           | None \<Rightarrow>
               (case out_csr g of
                  Some oc \<Rightarrow> Some (row (CSRToCOO oc True), col (CSRToCOO oc True))
                | None \<Rightarrow> None)))"

text \<open>Following the spec: the endpoint arrays of relation \<open>t\<close> restricted to the
  selected edge ids: the source of edge \<open>e\<close> and the destination of edge \<open>e\<close>, for the
  ids \<open>e\<close> of \<open>eids ! t\<close> in their order.\<close>

definition selected_ends :: "Bipartite list \<Rightarrow> IdArray list \<Rightarrow> nat \<Rightarrow> IdArray \<times> IdArray" where
  "selected_ends rels eids t =
     (case edge_ends (rels ! t) of
        Some (srcs, dsts) \<Rightarrow>
          (map (\<lambda>e. srcs ! e) (eids ! t), map (\<lambda>e. dsts ! e) (eids ! t))
      | None \<Rightarrow> ([], []))"

text \<open>All endpoint ids of type \<open>v\<close> among the selected edges: relation by relation,
  the source array of a relation whose source type is \<open>v\<close>, then its destination
  array if its destination type is \<open>v\<close>.\<close>

definition incident_ids ::
  "MetaGraph \<Rightarrow> Bipartite list \<Rightarrow> IdArray list \<Rightarrow> dgl_type_t \<Rightarrow> nat list" where
  "incident_ids mg rels eids v =
     concat (map (\<lambda>t. (if fst (mg_edges mg ! t) = v then fst (selected_ends rels eids t) else []) @
                      (if snd (mg_edges mg ! t) = v then snd (selected_ends rels eids t) else []))
              [0..<length (mg_edges mg)])"

subsection \<open>The example heterograph of the source comment\<close>

text \<open>Meta graph \<open>A \<rightarrow> B \<rightarrow> C\<close> with the relations \<open>A \<rightarrow> B: (0,0), (0,1)\<close> and
  \<open>B \<rightarrow> C: (1,0), (1,1)\<close>.\<close>

definition mg_ABC :: MetaGraph where
  "mg_ABC = \<lparr> mg_num_vertices = 3, mg_edges = [(0, 1), (1, 2)] \<rparr>"

definition rel_AB :: Bipartite where
  "rel_AB = CreateFromCOO 1 2 [0, 0] [0, 1]"

definition rel_BC :: Bipartite where
  "rel_BC = CreateFromCOO 2 2 [1, 1] [0, 1]"

definition hg_ABC :: HeteroGraph where
  "hg_ABC = \<lparr> meta_graph = mg_ABC, relation_graphs = [rel_AB, rel_BC],
              num_verts_per_type = [1, 2, - 1] \<rparr>"

subsection \<open>The example bipartite graph\<close>

text \<open>\<open>num_src = 3\<close>, \<open>num_dst = 4\<close>, \<open>row = [0,0,1,2]\<close>, \<open>col = [1,2,0,3]\<close>, and the same
  graph once both of its CSR views exist.\<close>

definition bip34 :: Bipartite where
  "bip34 = CreateFromCOO 3 4 [0, 0, 1, 2] [1, 2, 0, 3]"

definition bip34_out :: CSRMatrix where
  "bip34_out = \<lparr> num_rows = 3, num_cols = 4, indptr = [0, 2, 3, 4],
                 indices = [1, 2, 0, 3], data = [0, 1, 2, 3] \<rparr>"

definition bip34_in :: CSRMatrix where
  "bip34_in = \<lparr> num_rows = 4, num_cols = 3, indptr = [0, 1, 2, 3, 4],
                indices = [1, 0, 0, 2], data = [2, 0, 1, 3] \<rparr>"

text \<open>A CSR over three source and four destination vertices with the edges of the
  example in another numbering.\<close>

definition csr_example :: CSRMatrix where
  "csr_example = \<lparr> num_rows = 3, num_cols = 4, indptr = [0, 2, 3, 4],
                    indices = [1, 2, 0, 3], data = [3, 0, 2, 1] \<rparr>"

definition bip34_both :: Bipartite where
  "bip34_both = bip34 \<lparr> in_csr := Some bip34_in, out_csr := Some bip34_out \<rparr>"

text \<open>The reading of \<^verbatim>\<open>has_edge_between\<close> that asks the out-CSR first and falls back
  to the in-CSR, with the arguments swapped, only when there is no out-CSR.\<close>

definition HasEdgeBetween_out_first ::
  "Bipartite \<Rightarrow> dgl_type_t \<Rightarrow> dgl_id_t \<Rightarrow> dgl_id_t \<Rightarrow> error + (bool \<times> Bipartite)" where
  "HasEdgeBetween_out_first g etype src dst =
     (case out_csr g of
        Some oc \<Rightarrow>
          (case CSR_HasEdgeBetween oc etype src dst of
             Inl e \<Rightarrow> Inl e | Inr b \<Rightarrow> Inr (b, g))
      | None \<Rightarrow>
          (case GetInCSR g of
             Inl e \<Rightarrow> Inl e
           | Inr (ic, g') \<Rightarrow>
               (case CSR_HasEdgeBetween ic etype dst src of
                  Inl e \<Rightarrow> Inl e | Inr b \<Rightarrow> Inr (b, g'))))"

text \<open>A relation \<open>A \<rightarrow> B\<close> that reports five destination vertices, next to a relation
  \<open>B \<rightarrow> C\<close> that reports two source vertices.\<close>

definition rel_AB5 :: Bipartite where
  "rel_AB5 = CreateFromCOO 1 5 [0, 0] [0, 1]"

text \<open>The references filed under vertex type \<open>v\<close> while the relations \<open>es\<close> are
  visited.\<close>

definition refs_of :: "MetaGraph \<Rightarrow> dgl_type_t \<Rightarrow> dgl_type_t list \<Rightarrow> array_ref list" where
  "refs_of mg v es =
     concat (map (\<lambda>t. (if fst (mg_edges mg ! t) = v then [(t, False)] else []) @
                      (if snd (mg_edges mg ! t) = v then [(t, True)] else [])) es)"

section \<open>Samplers (sampler.cc)\<close>

subsection \<open>Random engine\<close>

text \<open>
  \<^verbatim>\<open>RandomEngine::ThreadLocal()\<close> is not part of the sources at hand.  The model hands
  every sampler the draws it will see: a list of raw integer draws, of which
  \<^verbatim>\<open>RandInt(upper)\<close> takes the next one reduced into \<open>[0, upper)\<close>, and a list of the
  values that \<^verbatim>\<open>Uniform<float>()\<close> returns.  A sampler that needs a draw when its
  list is empty has not finished within the draws it was given; it yields
  \<open>Inl DrawsExhausted\<close>, which is no result of the program.
\<close>

text \<open>\<^verbatim>\<open>RandomSample\<close>: insert draws into a hash set until it holds \<open>num\<close> indices.
  The order in which the set is copied out is left open by the source (the callers
  sort); the model keeps the order of insertion.\<close>

fun RandomSample_loop ::
  "nat \<Rightarrow> nat \<Rightarrow> nat list \<Rightarrow> nat list \<Rightarrow> (nat list \<times> nat list) option" where
  "RandomSample_loop set_size num sampled_idxs [] =
     (if length sampled_idxs < num then None else Some (sampled_idxs, []))"
| "RandomSample_loop set_size num sampled_idxs (r # rs) =
     (if length sampled_idxs < num then
        RandomSample_loop set_size num
          (if r mod set_size \<in> set sampled_idxs then sampled_idxs
           else sampled_idxs @ [r mod set_size]) rs
      else Some (sampled_idxs, r # rs))"

definition RandomSample :: "nat \<Rightarrow> nat \<Rightarrow> nat list \<Rightarrow> (nat list \<times> nat list) option" where
  "RandomSample set_size num rs = RandomSample_loop set_size num [] rs"

text \<open>\<^verbatim>\<open>NegateArray\<close>: the indices below \<open>arr_size\<close> that are not in the sorted list
  \<open>nz_idxs\<close>.  The two loops of the source share the counter \<open>i\<close>; calling \<^verbatim>\<open>back()\<close>
  on an empty vector is undefined.\<close>

function NegateArray_loop :: "nat list \<Rightarrow> nat \<Rightarrow> nat \<Rightarrow> nat list \<Rightarrow> nat list" where
  "NegateArray_loop nz i arr_size out =
     (if i < arr_size then
        (case nz of
           [] \<Rightarrow> NegateArray_loop [] (Suc i) arr_size (out @ [i])
         | z # zs \<Rightarrow>
             (if z = i then NegateArray_loop zs (Suc i) arr_size out
              else NegateArray_loop (z # zs) (Suc i) arr_size (out @ [i])))
      else out)"
  by pat_completeness auto
termination
  by (relation "measure (\<lambda>(nz, i, arr_size, out). arr_size - i)") auto

declare NegateArray_loop.simps [simp del]

definition NegateArray :: "nat list \<Rightarrow> nat \<Rightarrow> nat list \<Rightarrow> error + nat list" where
  "NegateArray nz_idxs arr_size out =
     (if nz_idxs = [] then Inl OutOfBounds
      else if \<not> (arr_size > last nz_idxs) then Inl SanityCheckFailed
      else Inr (NegateArray_loop nz_idxs 0 arr_size out))"

text \<open>Reading \<open>p[i]\<close> through a pointer \<open>p\<close> into an array: the list is the part of the
  array from \<open>p\<close> on.\<close>

definition read_at :: "'a list \<Rightarrow> nat \<Rightarrow> error + 'a" where
  "read_at p i = (if i < length p then Inr (p ! i) else Inl OutOfBounds)"

fun read_all :: "'a list \<Rightarrow> nat list \<Rightarrow> error + 'a list" where
  "read_all p [] = Inr []"
| "read_all p (i # is) =
     (case read_at p i of
        Inl e \<Rightarrow> Inl e
      | Inr x \<Rightarrow> (case read_all p is of Inl e \<Rightarrow> Inl e | Inr xs \<Rightarrow> Inr (x # xs)))"

text \<open>Strictly increasing, as the loop of \<^verbatim>\<open>CHECK_GT\<close> in \<^verbatim>\<open>GetUniformSample\<close> tests
  it.\<close>

fun strictly_increasing :: "nat list \<Rightarrow> bool" where
  "strictly_increasing [] = True"
| "strictly_increasing [x] = True"
| "strictly_increasing (x # y # ys) = (x < y \<and> strictly_increasing (y # ys))"

text \<open>The index selection of \<^verbatim>\<open>GetUniformSample\<close> for a neighbor list longer than the
  bound: either sample the indices to keep, or sample the indices to drop and
  take the complement.\<close>

definition sample_sorted_idxs :: "nat \<Rightarrow> nat \<Rightarrow> nat list \<Rightarrow> error + (nat list \<times> nat list)" where
  "sample_sorted_idxs ver_len max_num_neighbor rs =
     (if ver_len > max_num_neighbor * 2 then
        (case RandomSample ver_len max_num_neighbor rs of
           None \<Rightarrow> Inl DrawsExhausted
         | Some (idxs, rs') \<Rightarrow> Inr (sort idxs, rs'))
      else
        (case RandomSample ver_len (ver_len - max_num_neighbor) rs of
           None \<Rightarrow> Inl DrawsExhausted
         | Some (negate, rs') \<Rightarrow>
             (case NegateArray (sort negate) ver_len [] of
                Inl e \<Rightarrow> Inl e
              | Inr idxs \<Rightarrow> Inr (idxs, rs'))))"

text \<open>\<^verbatim>\<open>GetUniformSample\<close>.  \<open>edge_id_list\<close> and \<open>vid_list\<close> point into the CSR arrays
  at the start of the neighbor list, \<open>ver_len\<close> is its length.\<close>

definition GetUniformSample ::
  "IdArray \<Rightarrow> IdArray \<Rightarrow> nat \<Rightarrow> nat \<Rightarrow> dgl_id_t list \<Rightarrow> dgl_id_t list \<Rightarrow> nat list \<Rightarrow>
   error + ((dgl_id_t list \<times> dgl_id_t list) \<times> nat list)" where
  "GetUniformSample edge_id_list vid_list ver_len max_num_neighbor out_ver out_edge rs =
     (if ver_len \<le> max_num_neighbor then
        (if ver_len \<le> length vid_list \<and> ver_len \<le> length edge_id_list
         then Inr ((out_ver @ take ver_len vid_list, out_edge @ take ver_len edge_id_list), rs)
         else Inl OutOfBounds)
      else
        (case sample_sorted_idxs ver_len max_num_neighbor rs of
           Inl e \<Rightarrow> Inl e
         | Inr (sorted_idxs, rs') \<Rightarrow>
             (if length sorted_idxs \<noteq> max_num_neighbor then Inl SanityCheckFailed
              else if \<not> strictly_increasing sorted_idxs then Inl SanityCheckFailed
              else
                (case read_all vid_list sorted_idxs of
                   Inl e \<Rightarrow> Inl e
                 | Inr vs \<Rightarrow>
                     (case read_all edge_id_list sorted_idxs of
                        Inl e \<Rightarrow> Inl e
                      | Inr es \<Rightarrow> Inr ((out_ver @ vs, out_edge @ es), rs'))))))"

subsection \<open>ArrayHeap\<close>

text \<open>
  \<^verbatim>\<open>ArrayHeap<ValueType>\<close> is instantiated at \<^verbatim>\<open>float\<close> and \<^verbatim>\<open>double\<close>.  The model is
  polymorphic in the value type and uses nothing of it but zero, addition,
  subtraction, multiplication and the order, so that it makes no assumption on how
  floating-point arithmetic rounds.
\<close>

text \<open>\<^verbatim>\<open>ceil(log2(n))\<close> for the size \<open>n\<close> of a vector.\<close>

fun ceil_log2 :: "nat \<Rightarrow> nat" where
  "ceil_log2 n = (if n \<le> 1 then 0 else Suc (ceil_log2 ((n + 1) div 2)))"

record 'a ArrayHeap =
  vec_size :: nat
  bit_len :: nat
  limit :: nat
  heap :: "'a list"

text \<open>The inner loop of the constructor: the nodes \<open>j\<close> of one level, from left to
  right.\<close>

fun heap_level :: "'a::plus list \<Rightarrow> nat list \<Rightarrow> 'a list" where
  "heap_level h [] = h"
| "heap_level h (j # js) = heap_level (h[j := h ! (2 * j) + h ! (2 * j + 1)]) js"

text \<open>The outer loop: the levels \<open>i = bit_len - 1, \<dots>, 0\<close>.\<close>

fun heap_levels :: "'a::plus list \<Rightarrow> nat list \<Rightarrow> 'a list" where
  "heap_levels h [] = h"
| "heap_levels h (i # is) = heap_levels (heap_level h [2 ^ i..<2 ^ (i + 1)]) is"

definition ArrayHeap_new :: "'a::{zero,plus} list \<Rightarrow> 'a ArrayHeap" where
  "ArrayHeap_new prob =
     (let vs = length prob;
          bl = ceil_log2 vs;
          lim = 2 ^ bl;
          leaves = replicate lim 0 @ prob @ replicate (lim - vs) 0
      in \<lparr> vec_size = vs, bit_len = bl, limit = lim,
           heap = heap_levels leaves (rev [0..<bl]) \<rparr>)"

text \<open>\<^verbatim>\<open>Delete\<close>: subtract the weight of the leaf on the path to the root,
  \<open>bit_len + 1\<close> nodes.\<close>

fun Delete_loop :: "'a::minus list \<Rightarrow> nat \<Rightarrow> 'a \<Rightarrow> nat \<Rightarrow> 'a list" where
  "Delete_loop h i w 0 = h"
| "Delete_loop h i w (Suc n) = Delete_loop (h[i := h ! i - w]) (i div 2) w n"

definition Delete :: "'a::minus ArrayHeap \<Rightarrow> nat \<Rightarrow> 'a ArrayHeap" where
  "Delete H index =
     (let i = index + limit H; w = heap H ! i
      in H\<lparr>heap := Delete_loop (heap H) i w (Suc (bit_len H))\<rparr>)"

text \<open>\<^verbatim>\<open>Sample\<close>: the descent from the root.  The loop runs while \<open>i < limit\<close>; \<open>i\<close>
  starts at \<open>1\<close> and is never \<open>0\<close>.\<close>

function Sample_loop :: "'a::{minus,ord} list \<Rightarrow> nat \<Rightarrow> nat \<Rightarrow> 'a \<Rightarrow> nat" where
  "Sample_loop h lim i xi =
     (if 0 < i \<and> i < lim then
        (if xi \<ge> h ! (2 * i) then Sample_loop h lim (2 * i + 1) (xi - h ! (2 * i))
         else Sample_loop h lim (2 * i) xi)
      else i)"
  by pat_completeness auto
termination
  by (relation "measure (\<lambda>(h, lim, i, xi). lim - i)") auto

declare Sample_loop.simps [simp del]

definition Sample :: "'a::{minus,times,ord} ArrayHeap \<Rightarrow> 'a \<Rightarrow> nat" where
  "Sample H u = Sample_loop (heap H) (limit H) 1 (heap H ! 1 * u) - limit H"

text \<open>\<^verbatim>\<open>SampleWithoutReplacement\<close>: \<open>n\<close> times sample and delete; one uniform draw
  each.\<close>

fun SampleWithoutReplacement ::
  "'a::{minus,times,ord} ArrayHeap \<Rightarrow> nat \<Rightarrow> 'a list \<Rightarrow> (nat list \<times> 'a list) option" where
  "SampleWithoutReplacement H 0 us = Some ([], us)"
| "SampleWithoutReplacement H (Suc n) [] = None"
| "SampleWithoutReplacement H (Suc n) (u # us) =
     (let s = Sample H u in
        (case SampleWithoutReplacement (Delete H s) n us of
           None \<Rightarrow> None
         | Some (samples, us') \<Rightarrow> Some (s # samples, us')))"

text \<open>
  The samplers read the neighbor list of a vertex through raw pointers into the
  arrays of the CSR.  An access past the end of an array is not checked; it yields
  the word that lies there.  \<open>read_behind\<close> is such an access: \<open>behind\<close> gives the words
  behind the array by their distance from its end.  A \<open>memory\<close> holds the words behind
  the array of the column indices and behind the array of the edge ids.
\<close>

definition read_behind :: "(nat \<Rightarrow> 'b) \<Rightarrow> 'b list \<Rightarrow> nat \<Rightarrow> 'b" where
  "read_behind behind p i = (if i < length p then p ! i else behind (i - length p))"

record memory =
  behind_vids :: "nat \<Rightarrow> dgl_id_t"
  behind_eids :: "nat \<Rightarrow> dgl_id_t"

text \<open>\<^verbatim>\<open>GetNonUniformSample\<close>.  \<open>probability\<close> is indexed by edge id.  The weights are
  read at the first \<open>ver_len\<close> entries of the edge ids, which the caller owns.  The
  vertices and edge ids are read at the drawn positions, whatever these are:
  \<^verbatim>\<open>ArrayHeap::Sample\<close> returns a position below the number of leaves, which may
  be \<open>ver_len\<close> or more, and the source does not compare it with \<open>ver_len\<close>.\<close>

definition GetNonUniformSample ::
  "memory \<Rightarrow> 'a::{zero,plus,minus,times,ord} list \<Rightarrow> IdArray \<Rightarrow> IdArray \<Rightarrow> nat \<Rightarrow> nat \<Rightarrow>
   dgl_id_t list \<Rightarrow> dgl_id_t list \<Rightarrow> 'a list \<Rightarrow>
   error + ((dgl_id_t list \<times> dgl_id_t list) \<times> 'a list)" where
  "GetNonUniformSample mem probability edge_id_list vid_list ver_len max_num_neighbor
     out_ver out_edge us =
     (if ver_len \<le> max_num_neighbor then
        (if ver_len \<le> length vid_list \<and> ver_len \<le> length edge_id_list
         then Inr ((out_ver @ take ver_len vid_list, out_edge @ take ver_len edge_id_list), us)
         else Inl OutOfBounds)
      else
        (case read_all edge_id_list [0..<ver_len] of
           Inl e \<Rightarrow> Inl e
         | Inr eids \<Rightarrow>
             (case read_all probability eids of
                Inl e \<Rightarrow> Inl e
              | Inr sp_prob \<Rightarrow>
                  (case SampleWithoutReplacement (ArrayHeap_new sp_prob) max_num_neighbor us of
                     None \<Rightarrow> Inl DrawsExhausted
                   | Some (sp_index, us') \<Rightarrow>
                       Inr ((sort (map (read_behind (behind_vids mem) vid_list) sp_index),
                             sort (map (read_behind (behind_eids mem) edge_id_list) sp_index)),
                            us')))))"

subsection \<open>Expansion of one destination vertex\<close>

text \<open>Subtraction of unsigned 64-bit values (both below \<open>2^64\<close>): it wraps around
  when the second is the larger.\<close>

definition usub64 :: "nat \<Rightarrow> nat \<Rightarrow> nat" where
  "usub64 a b = (if b \<le> a then a - b else a + 2 ^ 64 - b)"

text \<open>The self-loop step of \<^verbatim>\<open>SampleSubgraph\<close>: \<open>src_list\<close> and \<open>eid_list\<close> point at the
  neighbor list of \<open>dst_id\<close>, of length \<open>ver_len\<close>.  \<^verbatim>\<open>std::find\<close> returns the first
  position of \<open>dst_id\<close> in the list; a search that meets the end of the array before
  the end of the list reads out of bounds.\<close>

definition add_self_loop_step ::
  "bool \<Rightarrow> dgl_id_t \<Rightarrow> IdArray \<Rightarrow> IdArray \<Rightarrow> nat \<Rightarrow> dgl_id_t list \<times> dgl_id_t list \<Rightarrow>
   error + (dgl_id_t list \<times> dgl_id_t list)" where
  "add_self_loop_step add_self_loop dst_id src_list eid_list ver_len tmp =
     (case tmp of (tmp_sampled_src_list, tmp_sampled_edge_list) \<Rightarrow>
        (if add_self_loop \<and> dst_id \<notin> set tmp_sampled_src_list then
           (if dst_id \<in> set (take ver_len src_list) then
              (case read_at eid_list (index_of dst_id (take ver_len src_list)) of
                 Inl e \<Rightarrow> Inl e
               | Inr eid \<Rightarrow>
                   Inr (tmp_sampled_src_list @ [dst_id], tmp_sampled_edge_list @ [eid]))
            else if ver_len > length src_list then Inl OutOfBounds
            else Inr (tmp_sampled_src_list @ [dst_id], tmp_sampled_edge_list @ [minus_one_id]))
         else Inr (tmp_sampled_src_list, tmp_sampled_edge_list)))"

text \<open>The random engine of a sampler run: the integer draws and the uniform
  draws still to come.\<close>

type_synonym 'a rng = "nat list \<times> 'a list"

text \<open>The body of the inner loop of \<^verbatim>\<open>SampleSubgraph\<close> up to the size check: sample
  the neighbor list of \<open>dst_id\<close>, uniformly when \<open>probability\<close> is the null pointer
  (\<open>None\<close>), then add the self loop.  \<open>val_list\<close>, \<open>col_list\<close> and \<open>indptr_data\<close> are the
  edge ids, the column indices and the row pointers of the CSR, and \<open>mem\<close> is the
  memory behind the first two.\<close>

definition expand_dst ::
  "memory \<Rightarrow> 'a::{zero,plus,minus,times,ord} list option \<Rightarrow> IdArray \<Rightarrow> IdArray \<Rightarrow> IdArray \<Rightarrow>
   dgl_id_t \<Rightarrow> nat \<Rightarrow> bool \<Rightarrow> 'a rng \<Rightarrow>
   error + ((dgl_id_t list \<times> dgl_id_t list) \<times> 'a rng)" where
  "expand_dst mem probability val_list col_list indptr_data dst_id num_neighbor add_self_loop g =
     (if \<not> Suc dst_id < length indptr_data then Inl OutOfBounds
      else
        (let off = indptr_data ! dst_id;
             ver_len = usub64 (indptr_data ! Suc dst_id) (indptr_data ! dst_id)
         in
           (case (case probability of
                    None \<Rightarrow>
                      (case GetUniformSample (drop off val_list) (drop off col_list) ver_len
                              num_neighbor [] [] (fst g) of
                         Inl e \<Rightarrow> Inl e
                       | Inr (tmp, rs') \<Rightarrow> Inr (tmp, (rs', snd g)))
                  | Some p \<Rightarrow>
                      (case GetNonUniformSample mem p (drop off val_list) (drop off col_list) ver_len
                              num_neighbor [] [] (snd g) of
                         Inl e \<Rightarrow> Inl e
                       | Inr (tmp, us') \<Rightarrow> Inr (tmp, (fst g, us')))) of
              Inl e \<Rightarrow> Inl e
            | Inr (tmp, g') \<Rightarrow>
                (case add_self_loop_step add_self_loop dst_id (drop off col_list)
                        (drop off val_list) ver_len tmp of
                   Inl e \<Rightarrow> Inl e
                 | Inr (tmp_sampled_src_list, tmp_sampled_edge_list) \<Rightarrow>
                     (if length tmp_sampled_src_list \<noteq> length tmp_sampled_edge_list
                      then Inl SanityCheckFailed
                      else Inr ((tmp_sampled_src_list, tmp_sampled_edge_list), g'))))))"

subsection \<open>Neighbor sampler\<close>

text \<open>Modelled from the spec: the sampled graph, a read-only CSR graph, held as a
  bipartite graph whose source and destination types are equal-sized, with lazily
  materialised in- and out-CSR views; \<open>ig_num_bits\<close> is the width of its ids.  It is an
  \<^verbatim>\<open>ImmutableGraph\<close>, whose implementation is not among the sources at hand.
  \<open>ig_behind\<close> is the memory behind the arrays of the CSR view that a sampler reads.\<close>

record ImmutableGraph =
  ig_views :: Bipartite
  ig_num_bits :: nat
  ig_behind :: memory

record NodeFlow =
  nf_graph :: Bipartite
  nf_node_mapping :: IdArray
  nf_edge_mapping :: IdArray
  nf_layer_offsets :: IdArray
  nf_flow_offsets :: IdArray

text \<open>\<^verbatim>\<open>neighbor_info\<close>: vertex id, position in the flat neighbor list, number of
  edges.\<close>

type_synonym neighbor_info = "dgl_id_t \<times> nat \<times> nat"

text \<open>Insert the vertices of a list into the queue \<open>sub_vers\<close> unless the hash set
  \<open>sub_ver_map\<close> of the layer already holds them.\<close>

fun enqueue_new ::
  "dgl_id_t list \<Rightarrow> nat \<Rightarrow> dgl_id_t list \<Rightarrow> (dgl_id_t \<times> nat) list \<Rightarrow>
   dgl_id_t list \<times> (dgl_id_t \<times> nat) list" where
  "enqueue_new [] lvl sub_ver_map sub_vers = (sub_ver_map, sub_vers)"
| "enqueue_new (v # vs) lvl sub_ver_map sub_vers =
     (if v \<in> set sub_ver_map then enqueue_new vs lvl sub_ver_map sub_vers
      else enqueue_new vs lvl (sub_ver_map @ [v]) (sub_vers @ [(v, lvl)]))"

text \<open>A loop whose body may abort: the body \<open>f\<close> is run on the elements of a list in
  order, from state to state, and the first failure ends the loop.\<close>

fun foldM_err :: "('x \<Rightarrow> 's \<Rightarrow> error + 's) \<Rightarrow> 'x list \<Rightarrow> 's \<Rightarrow> error + 's" where
  "foldM_err f [] s = Inr s"
| "foldM_err f (x # xs) s =
     (case f x s of Inl e \<Rightarrow> Inl e | Inr s' \<Rightarrow> foldM_err f xs s')"

record 'a sample_state =
  st_sub_vers :: "(dgl_id_t \<times> nat) list"
  st_sub_ver_map :: "dgl_id_t list"
  st_neigh_pos :: "neighbor_info list"
  st_neighbor_list :: "dgl_id_t list"
  st_edge_list :: "dgl_id_t list"
  st_num_edges :: nat
  st_rng :: "'a rng"

text \<open>The body of the inner loop of \<^verbatim>\<open>SampleSubgraph\<close>: expand the queue entry at
  position \<open>idx\<close>.\<close>

definition expand_idx ::
  "memory \<Rightarrow> 'a::{zero,plus,minus,times,ord} list option \<Rightarrow> IdArray \<Rightarrow> IdArray \<Rightarrow> IdArray \<Rightarrow>
   nat \<Rightarrow> bool \<Rightarrow> nat \<Rightarrow> 'a sample_state \<Rightarrow> error + 'a sample_state" where
  "expand_idx mem probability val_list col_list indptr_data num_neighbor add_self_loop idx s =
     (if \<not> idx < length (st_sub_vers s) then Inl OutOfBounds
      else
        (let dst_id = fst (st_sub_vers s ! idx);
             cur_node_level = snd (st_sub_vers s ! idx)
         in
           (case expand_dst mem probability val_list col_list indptr_data dst_id num_neighbor
                   add_self_loop (st_rng s) of
              Inl e \<Rightarrow> Inl e
            | Inr ((tmp_sampled_src_list, tmp_sampled_edge_list), g') \<Rightarrow>
                (case enqueue_new tmp_sampled_src_list (cur_node_level + 1)
                        (st_sub_ver_map s) (st_sub_vers s) of
                   (m', sv') \<Rightarrow>
                     Inr \<lparr> st_sub_vers = sv',
                           st_sub_ver_map = m',
                           st_neigh_pos = st_neigh_pos s @
                             [(dst_id, length (st_neighbor_list s), length tmp_sampled_src_list)],
                           st_neighbor_list = st_neighbor_list s @ tmp_sampled_src_list,
                           st_edge_list = st_edge_list s @ tmp_sampled_edge_list,
                           st_num_edges = st_num_edges s + length tmp_sampled_src_list,
                           st_rng = g' \<rparr>))))"

text \<open>The body of the outer loop, for one \<open>layer_id\<close>: clear the hash set, expand the
  vertices of the previous layer, record where the new layer ends.\<close>

definition expand_layer ::
  "memory \<Rightarrow> 'a::{zero,plus,minus,times,ord} list option \<Rightarrow> IdArray \<Rightarrow> IdArray \<Rightarrow> IdArray \<Rightarrow>
   nat \<Rightarrow> bool \<Rightarrow> nat \<Rightarrow> nat list \<times> 'a sample_state \<Rightarrow>
   error + (nat list \<times> 'a sample_state)" where
  "expand_layer mem probability val_list col_list indptr_data num_neighbor add_self_loop layer_id
     ls =
     (case ls of (layer_offsets, s) \<Rightarrow>
        (case foldM_err
                (expand_idx mem probability val_list col_list indptr_data num_neighbor
                   add_self_loop)
                [layer_offsets ! (layer_id - 1)..<layer_offsets ! layer_id]
                (s\<lparr>st_sub_ver_map := []\<rparr>) of
           Inl e \<Rightarrow> Inl e
         | Inr s' \<Rightarrow>
             (let layer_offsets' =
                    layer_offsets[layer_id + 1 :=
                      layer_offsets ! layer_id + length (st_sub_ver_map s')]
              in if layer_offsets' ! (layer_id + 1) \<noteq> length (st_sub_vers s')
                 then Inl SanityCheckFailed
                 else Inr (layer_offsets', s'))))"

text \<open>The seed vertices, without repetitions, in the order given.\<close>

fun add_seeds :: "dgl_id_t list \<Rightarrow> dgl_id_t list \<Rightarrow> (dgl_id_t \<times> nat) list \<Rightarrow>
   dgl_id_t list \<times> (dgl_id_t \<times> nat) list" where
  "add_seeds [] sub_ver_map sub_vers = (sub_ver_map, sub_vers)"
| "add_seeds (x # xs) sub_ver_map sub_vers =
     (if x \<in> set sub_ver_map then add_seeds xs sub_ver_map sub_vers
      else add_seeds xs (sub_ver_map @ [x]) (sub_vers @ [(x, 0)]))"

subsection \<open>Construction of the node flow\<close>

text \<open>The body of the first loop of \<^verbatim>\<open>ConstructNodeFlow\<close>, which visits the layers
  from the last to the first: sort the layer (the seed layer excepted), copy its
  vertices to the node mapping and number them.  The state is the queue, the node
  mapping written so far and the maps of the layers; \<^verbatim>\<open>insert\<close> keeps the first
  number of a vertex.\<close>

definition number_layer ::
  "nat list \<Rightarrow> nat \<Rightarrow>
   (dgl_id_t \<times> nat) list \<times> dgl_id_t list \<times> (dgl_id_t \<times> dgl_id_t) list list \<Rightarrow>
   error + ((dgl_id_t \<times> nat) list \<times> dgl_id_t list \<times> (dgl_id_t \<times> dgl_id_t) list list)" where
  "number_layer layer_offsets layer_id st =
     (case st of (sub_vers, node_map, layer_ver_maps) \<Rightarrow>
        (let lo = layer_offsets ! layer_id; hi = layer_offsets ! (layer_id + 1) in
           if \<not> (layer_id + 1 < length layer_offsets \<and> lo \<le> hi \<and> hi \<le> length sub_vers)
           then Inl OutOfBounds
           else
             (let layer = take (hi - lo) (drop lo sub_vers);
                  layer' = (if layer_id > 0 then sort_key fst layer else layer);
                  sub_vers' = take lo sub_vers @ layer' @ drop hi sub_vers
              in if \<not> (\<forall>p \<in> set layer'. snd p = layer_id) then Inl SanityCheckFailed
                 else Inr (sub_vers', node_map @ map fst layer',
                        layer_ver_maps[layer_id :=
                          layer_ver_maps ! layer_id @
                            zip (map fst layer')
                              [length node_map..<length node_map + length layer']]))))"

text \<open>Translation of the neighbors of one destination vertex through the map of
  the next layer.\<close>

fun map_neighbors :: "(dgl_id_t \<times> dgl_id_t) list \<Rightarrow> dgl_id_t list \<Rightarrow> error + dgl_id_t list" where
  "map_neighbors m [] = Inr []"
| "map_neighbors m (neigh # ns) =
     (case map_of m neigh of
        None \<Rightarrow> Inl SanityCheckFailed
      | Some v \<Rightarrow>
          (case map_neighbors m ns of Inl e \<Rightarrow> Inl e | Inr vs \<Rightarrow> Inr (v # vs)))"

record csr_build =
  cb_indptr :: "dgl_id_t list"
  cb_col_list :: "dgl_id_t list"
  cb_edge_map :: "dgl_id_t list"
  cb_row_idx :: nat

text \<open>The row of one destination vertex: copy its sampled edges into the CSR under
  construction.\<close>

definition copy_row ::
  "(dgl_id_t \<times> nat) list \<Rightarrow> neighbor_info list \<Rightarrow> dgl_id_t list \<Rightarrow> dgl_id_t list \<Rightarrow>
   (dgl_id_t \<times> dgl_id_t) list \<Rightarrow> nat \<Rightarrow> csr_build \<Rightarrow> error + csr_build" where
  "copy_row sub_vers neigh_pos neighbor_list edge_list ver_map i b =
     (if \<not> (i < length sub_vers \<and> i < length neigh_pos) then Inl OutOfBounds
      else
        (case neigh_pos ! i of (nid, pos, nedges) \<Rightarrow>
           if fst (sub_vers ! i) \<noteq> nid then Inl SanityCheckFailed
           else if \<not> pos \<le> length neighbor_list then Inl SanityCheckFailed
           else if neighbor_list = [] \<and> nedges \<noteq> 0 then Inl SanityCheckFailed
           else if \<not> (pos + nedges \<le> length neighbor_list \<and> pos + nedges \<le> length edge_list)
           then Inl OutOfBounds
           else
             (case map_neighbors ver_map (take nedges (drop pos neighbor_list)) of
                Inl e \<Rightarrow> Inl e
              | Inr cols \<Rightarrow>
                  if \<not> cb_row_idx b + 1 < length (cb_indptr b) then Inl OutOfBounds
                  else Inr
                    \<lparr> cb_indptr = (cb_indptr b)
                        [cb_row_idx b + 1 := cb_indptr b ! cb_row_idx b + nedges],
                      cb_col_list = cb_col_list b @ cols,
                      cb_edge_map = cb_edge_map b @ take nedges (drop pos edge_list),
                      cb_row_idx = cb_row_idx b + 1 \<rparr>)))"

text \<open>The body of the second loop of \<^verbatim>\<open>ConstructNodeFlow\<close>, which visits the layers
  \<open>num_hops - 2, \<dots>, 0\<close>.  The state is the list of neighbor positions, the layer
  offsets written so far and the CSR under construction.\<close>

definition copy_layer ::
  "nat list \<Rightarrow> (dgl_id_t \<times> nat) list \<Rightarrow> dgl_id_t list \<Rightarrow> dgl_id_t list \<Rightarrow>
   (dgl_id_t \<times> dgl_id_t) list list \<Rightarrow> nat \<Rightarrow>
   neighbor_info list \<times> dgl_id_t list \<times> csr_build \<Rightarrow>
   error + (neighbor_info list \<times> dgl_id_t list \<times> csr_build)" where
  "copy_layer layer_offsets sub_vers neighbor_list edge_list layer_ver_maps layer_id st =
     (case st of (neigh_pos, layer_off_data, b) \<Rightarrow>
        (let lo = layer_offsets ! layer_id; hi = layer_offsets ! (layer_id + 1) in
           if \<not> (lo \<le> hi \<and> hi \<le> length neigh_pos) then Inl OutOfBounds
           else
             (let layer = take (hi - lo) (drop lo neigh_pos);
                  layer' = (if layer_id > 0 then sort_key fst layer else layer);
                  neigh_pos' = take lo neigh_pos @ layer' @ drop hi neigh_pos
              in
                (case foldM_err
                        (copy_row sub_vers neigh_pos' neighbor_list edge_list
                           (layer_ver_maps ! (layer_id + 1))) [lo..<hi] b of
                   Inl e \<Rightarrow> Inl e
                 | Inr b' \<Rightarrow>
                     Inr (neigh_pos', layer_off_data @ [last layer_off_data + (hi - lo)], b')))))"

text \<open>The body of the loop that copies the flow offsets: the number of edges
  between two consecutive layers, read off the row pointers.\<close>

definition copy_flow_offset ::
  "dgl_id_t list \<Rightarrow> dgl_id_t list \<Rightarrow> nat \<Rightarrow> dgl_id_t list \<Rightarrow> error + dgl_id_t list" where
  "copy_flow_offset indptr_out layer_off_data i flow_off_data =
     (if \<not> (i + 2 < length layer_off_data \<and>
             layer_off_data ! (i + 2) < length indptr_out \<and>
             layer_off_data ! (i + 1) < length indptr_out) then Inl OutOfBounds
      else
        Inr (flow_off_data @
               [last flow_off_data +
                  usub64 (indptr_out ! (layer_off_data ! (i + 2)))
                         (indptr_out ! (layer_off_data ! (i + 1)))]))"

text \<open>\<^verbatim>\<open>ConstructNodeFlow\<close>.  The arrays of the node flow are allocated with the sizes
  \<open>num_vertices\<close>, \<open>num_edges\<close>, \<open>num_hops + 1\<close> and \<open>num_hops\<close> and filled from the front;
  writing more than an array holds is out of bounds.  The multigraph flag of the
  CSR is not modelled.\<close>

definition ConstructNodeFlow ::
  "dgl_id_t list \<Rightarrow> dgl_id_t list \<Rightarrow> nat list \<Rightarrow> (dgl_id_t \<times> nat) list \<Rightarrow>
   neighbor_info list \<Rightarrow> string \<Rightarrow> nat \<Rightarrow> nat \<Rightarrow> error + NodeFlow" where
  "ConstructNodeFlow neighbor_list edge_list layer_offsets sub_vers neigh_pos edge_type
     num_edges num_hops =
     (let num_vertices = length sub_vers in
        if num_hops = 0 then Inl OutOfBounds
        else
          (case foldM_err (number_layer layer_offsets) (rev [0..<num_hops])
                  (sub_vers, [], replicate num_hops []) of
             Inl e \<Rightarrow> Inl e
           | Inr (sub_vers', node_map, layer_ver_maps) \<Rightarrow>
               if length node_map > num_vertices then Inl OutOfBounds
               else if length node_map \<noteq> num_vertices then Inl SanityCheckFailed
               else
                 (let row_idx = layer_offsets ! num_hops - layer_offsets ! (num_hops - 1) in
                    (case foldM_err
                            (copy_layer layer_offsets sub_vers' neighbor_list edge_list
                               layer_ver_maps)
                            (rev [0..<num_hops - 1])
                            (neigh_pos, [0, row_idx],
                             \<lparr> cb_indptr = replicate (num_vertices + 1) 0, cb_col_list = [],
                               cb_edge_map = [], cb_row_idx = row_idx \<rparr>) of
                       Inl e \<Rightarrow> Inl e
                     | Inr (neigh_pos', layer_off_data, b) \<Rightarrow>
                         if length (cb_col_list b) > num_edges then Inl OutOfBounds
                         else if cb_row_idx b \<noteq> num_vertices then Inl SanityCheckFailed
                         else if cb_indptr b ! cb_row_idx b \<noteq> num_edges
                         then Inl SanityCheckFailed
                         else if layer_off_data ! num_hops \<noteq> num_vertices
                         then Inl SanityCheckFailed
                         else
                           (case foldM_err (copy_flow_offset (cb_indptr b) layer_off_data)
                                   [0..<length layer_offsets - 2] [0] of
                              Inl e \<Rightarrow> Inl e
                            | Inr flow_off_data \<Rightarrow>
                                if length flow_off_data > num_hops then Inl OutOfBounds
                                else if length flow_off_data - 1 \<noteq> num_hops - 1
                                then Inl SanityCheckFailed
                                else if flow_off_data ! (num_hops - 1) \<noteq> num_edges
                                then Inl SanityCheckFailed
                                else
                                  (let subg_csr =
                                         \<lparr> num_rows = num_vertices, num_cols = num_vertices,
                                           indptr = cb_indptr b, indices = cb_col_list b,
                                           data = [0..<num_edges] \<rparr>
                                   in Inr \<lparr> nf_graph =
                                             (if edge_type = ''in''
                                              then \<lparr> in_csr = Some subg_csr, out_csr = None,
                                                     coo = None \<rparr>
                                              else \<lparr> in_csr = None, out_csr = Some subg_csr,
                                                     coo = None \<rparr>),
                                           nf_node_mapping = node_map,
                                           nf_edge_mapping = cb_edge_map b,
                                           nf_layer_offsets = layer_off_data,
                                           nf_flow_offsets = flow_off_data \<rparr>))))))"

text \<open>\<^verbatim>\<open>SampleSubgraph\<close>.  The second component of the result is the random engine
  after the run.\<close>

definition SampleSubgraph ::
  "ImmutableGraph \<Rightarrow> dgl_id_t list \<Rightarrow> 'a::{zero,plus,minus,times,ord} list option \<Rightarrow> string \<Rightarrow>
   nat \<Rightarrow> nat \<Rightarrow> bool \<Rightarrow> 'a rng \<Rightarrow> error + (NodeFlow \<times> 'a rng)" where
  "SampleSubgraph gr seeds probability edge_type num_hops num_neighbor add_self_loop g =
     (if ig_num_bits gr \<noteq> 64 then Inl NotSupported32Bit
      else
        (case (if edge_type = ''in'' then GetInCSR (ig_views gr) else GetOutCSR (ig_views gr)) of
           Inl e \<Rightarrow> Inl e
         | Inr (orig_csr, views') \<Rightarrow>
             (case add_seeds seeds [] [] of
                (sub_ver_map, sub_vers) \<Rightarrow>
                  if num_hops = 0 then Inl OutOfBounds
                  else
                    (case foldM_err
                            (expand_layer (ig_behind gr) probability (data orig_csr) (indices orig_csr)
                               (indptr orig_csr) num_neighbor add_self_loop)
                            [1..<num_hops]
                            ((replicate (num_hops + 1) 0)[1 := length sub_vers],
                             \<lparr> st_sub_vers = sub_vers, st_sub_ver_map = sub_ver_map,
                               st_neigh_pos = [], st_neighbor_list = [], st_edge_list = [],
                               st_num_edges = 0, st_rng = g \<rparr>) of
                       Inl e \<Rightarrow> Inl e
                     | Inr (layer_offsets, s) \<Rightarrow>
                         (case ConstructNodeFlow (st_neighbor_list s) (st_edge_list s)
                                 layer_offsets (st_sub_vers s) (st_neigh_pos s) edge_type
                                 (st_num_edges s) num_hops of
                            Inl e \<Rightarrow> Inl e
                          | Inr nf \<Rightarrow> Inr (nf, st_rng s))))))"

text \<open>\<^verbatim>\<open>SamplerOp::NeighborSample\<close>\<close>

definition NeighborSample ::
  "ImmutableGraph \<Rightarrow> dgl_id_t list \<Rightarrow> string \<Rightarrow> nat \<Rightarrow> nat \<Rightarrow> bool \<Rightarrow>
   'a::{zero,plus,minus,times,ord} list option \<Rightarrow> 'a rng \<Rightarrow> error + (NodeFlow \<times> 'a rng)" where
  "NeighborSample gr seeds edge_type num_hops expand_factor add_self_loop probability g =
     SampleSubgraph gr seeds probability edge_type (num_hops + 1) expand_factor add_self_loop g"


subsection \<open>Layer-wise sampler\<close>

text \<open>A hash container is held as the list of its elements in the order of their
  first insertion.  The order in which an iteration over \<^verbatim>\<open>std::unordered_set\<close> or
  \<^verbatim>\<open>std::unordered_map\<close> visits them depends on the hash table and is left open by
  the source.  A \<open>hash_order\<close> gives it: \<open>set_order\<close> and \<open>map_order\<close> take the elements
  in the order of their insertion and return them in the order of the iteration.\<close>

record hash_order =
  set_order :: "dgl_id_t list \<Rightarrow> dgl_id_t list"
  map_order :: "(dgl_id_t \<times> nat) list \<Rightarrow> (dgl_id_t \<times> nat) list"

text \<open>\<^verbatim>\<open>insert(first, last)\<close> on a hash set: the new elements join in their order.\<close>

fun insert_all :: "dgl_id_t list \<Rightarrow> dgl_id_t list \<Rightarrow> dgl_id_t list" where
  "insert_all m [] = m"
| "insert_all m (x # xs) = insert_all (if x \<in> set m then m else m @ [x]) xs"

text \<open>The neighbor list of \<open>src\<close> in a CSR given by its row pointers and column
  indices.\<close>

definition csr_row :: "IdArray \<Rightarrow> 'b list \<Rightarrow> dgl_id_t \<Rightarrow> error + 'b list" where
  "csr_row indptr_data xs src =
     (if \<not> Suc src < length indptr_data then Inl OutOfBounds
      else if \<not> (indptr_data ! src \<le> indptr_data ! Suc src \<and>
                 indptr_data ! Suc src \<le> length xs) then Inl OutOfBounds
      else Inr (take (indptr_data ! Suc src - indptr_data ! src) (drop (indptr_data ! src) xs)))"

text \<open>The candidates of a layer: the neighbors of the vertices of the previous
  layer.\<close>

definition add_candidates ::
  "IdArray \<Rightarrow> IdArray \<Rightarrow> dgl_id_t \<Rightarrow> dgl_id_t list \<Rightarrow> error + dgl_id_t list" where
  "add_candidates indptr_data indices_data src candidate_set =
     (case csr_row indptr_data indices_data src of
        Inl e \<Rightarrow> Inl e
      | Inr ns \<Rightarrow> Inr (insert_all candidate_set ns))"

text \<open>One draw with replacement from the candidates; \<open>n_occurrences\<close> lists the
  drawn vertices with their counts.  Drawing from no candidates indexes an empty
  vector.\<close>

fun count_draw :: "dgl_id_t \<Rightarrow> (dgl_id_t \<times> nat) list \<Rightarrow> (dgl_id_t \<times> nat) list" where
  "count_draw dst [] = [(dst, 1)]"
| "count_draw dst ((v, c) # rest) =
     (if v = dst then (v, c + 1) # rest else (v, c) # count_draw dst rest)"

definition draw_candidate ::
  "dgl_id_t list \<Rightarrow> nat \<Rightarrow> (dgl_id_t \<times> nat) list \<times> nat list \<Rightarrow>
   error + ((dgl_id_t \<times> nat) list \<times> nat list)" where
  "draw_candidate candidate_vector j st =
     (case st of (n_occurrences, rs) \<Rightarrow>
        (case rs of
           [] \<Rightarrow> Inl DrawsExhausted
         | r # rs' \<Rightarrow>
             if candidate_vector = [] then Inl OutOfBounds
             else Inr (count_draw (candidate_vector ! (r mod length candidate_vector))
                         n_occurrences, rs')))"

text \<open>The body of the loop of \<^verbatim>\<open>ConstructLayers\<close> for one requested layer size.  The
  state is the node mapping, the actual layer sizes, the bounds \<open>cur_pos\<close> and \<open>next\<close> of
  the previous layer and the random engine.  The vector \<^verbatim>\<open>probabilities\<close> that the
  source fills alongside is not part of the node flow and is left out.\<close>

definition construct_layer ::
  "hash_order \<Rightarrow> IdArray \<Rightarrow> IdArray \<Rightarrow> nat \<Rightarrow>
   dgl_id_t list \<times> nat list \<times> nat \<times> nat \<times> nat list \<Rightarrow>
   error + (dgl_id_t list \<times> nat list \<times> nat \<times> nat \<times> nat list)" where
  "construct_layer ord indptr_data indices_data layer_size st =
     (case st of (node_mapping, actl_layer_sizes, cur_pos, nxt_pos, rs) \<Rightarrow>
        (case foldM_err (add_candidates indptr_data indices_data)
                (take (nxt_pos - cur_pos) (drop cur_pos node_mapping)) [] of
           Inl e \<Rightarrow> Inl e
         | Inr candidate_set \<Rightarrow>
             (case foldM_err (draw_candidate (set_order ord candidate_set)) [0..<layer_size]
                     ([], rs) of
                Inl e \<Rightarrow> Inl e
              | Inr (n_occurrences, rs') \<Rightarrow>
                  (let node_mapping' = node_mapping @ map fst (map_order ord n_occurrences)
                   in Inr (node_mapping',
                           actl_layer_sizes @ [length node_mapping' - nxt_pos],
                           nxt_pos, length node_mapping', rs')))))"

text \<open>The prefix sums that \<^verbatim>\<open>ConstructLayers\<close> pushes onto \<open>layer_offsets\<close>.\<close>

fun push_offsets :: "nat list \<Rightarrow> nat list \<Rightarrow> nat list" where
  "push_offsets layer_offsets [] = layer_offsets"
| "push_offsets layer_offsets (sz # szs) =
     push_offsets (layer_offsets @ [sz + last layer_offsets]) szs"

text \<open>\<^verbatim>\<open>ConstructLayers\<close>: the result is \<open>(layer_offsets, node_mapping,
  actl_layer_sizes)\<close> and the random engine.\<close>

definition ConstructLayers ::
  "hash_order \<Rightarrow> IdArray \<Rightarrow> IdArray \<Rightarrow> dgl_id_t list \<Rightarrow> nat list \<Rightarrow> nat list \<Rightarrow>
   error + ((nat list \<times> dgl_id_t list \<times> nat list) \<times> nat list)" where
  "ConstructLayers ord indptr_data indices_data seed_array layer_sizes rs =
     (case foldM_err (construct_layer ord indptr_data indices_data) (rev layer_sizes)
             (seed_array, [length seed_array], 0, length seed_array, rs) of
        Inl e \<Rightarrow> Inl e
      | Inr (node_mapping, actl_layer_sizes, cur_pos, nxt_pos, rs') \<Rightarrow>
          Inr ((push_offsets [0] (rev actl_layer_sizes), rev node_mapping,
                rev actl_layer_sizes), rs'))"

record flow_build =
  fb_sub_indptr :: "dgl_id_t list"
  fb_sub_indices :: "dgl_id_t list"
  fb_flow_offsets :: "dgl_id_t list"
  fb_edge_mapping :: "dgl_id_t list"
  fb_first :: nat

text \<open>One step of the scan of the row of a destination vertex: the neighbor at
  position \<open>k\<close> is kept, with its edge id, when it lies in the source layer.\<close>

definition flow_neighbor ::
  "IdArray \<Rightarrow> IdArray \<Rightarrow> (dgl_id_t \<times> dgl_id_t) list \<Rightarrow> nat \<Rightarrow>
   (dgl_id_t \<times> dgl_id_t) list \<Rightarrow> error + (dgl_id_t \<times> dgl_id_t) list" where
  "flow_neighbor indices_data eids source_map k neighbor_indices =
     (case read_at indices_data k of
        Inl e \<Rightarrow> Inl e
      | Inr n \<Rightarrow>
          (case map_of source_map n of
             None \<Rightarrow> Inr neighbor_indices
           | Some p \<Rightarrow>
               (case read_at eids k of
                  Inl e \<Rightarrow> Inl e
                | Inr eid \<Rightarrow> Inr (neighbor_indices @ [(p, eid)]))))"

text \<open>The row of one destination vertex of a flow: its neighbors that lie in the
  source layer, as positions in the node mapping, sorted, with their edge ids.  The
  source sorts with \<^verbatim>\<open>std::sort\<close>, which leaves the order of parallel edges open; the
  model keeps them in the order of the scan.\<close>

definition flow_row ::
  "IdArray \<Rightarrow> IdArray \<Rightarrow> IdArray \<Rightarrow> dgl_id_t list \<Rightarrow> (dgl_id_t \<times> dgl_id_t) list \<Rightarrow>
   nat \<Rightarrow> flow_build \<Rightarrow> error + flow_build" where
  "flow_row indptr_data indices_data eids node_mapping source_map pos b =
     (case read_at node_mapping pos of
        Inl e \<Rightarrow> Inl e
      | Inr dst \<Rightarrow>
          if \<not> Suc dst < length indptr_data then Inl OutOfBounds
          else
            (case foldM_err (flow_neighbor indices_data eids source_map)
                    [indptr_data ! dst..<indptr_data ! Suc dst] [] of
               Inl e \<Rightarrow> Inl e
             | Inr scanned \<Rightarrow>
                 (let neighbor_indices = sort_key fst scanned;
                      sub_indices' = fb_sub_indices b @ map fst neighbor_indices
                  in Inr (b\<lparr> fb_sub_indices := sub_indices',
                             fb_edge_mapping := fb_edge_mapping b @ map snd neighbor_indices,
                             fb_sub_indptr := fb_sub_indptr b @ [length sub_indices'] \<rparr>))))"

text \<open>The body of the loop of \<^verbatim>\<open>ConstructFlows\<close> for the flow between the layers \<open>i\<close>
  and \<open>i + 1\<close>.\<close>

definition construct_flow ::
  "IdArray \<Rightarrow> IdArray \<Rightarrow> IdArray \<Rightarrow> dgl_id_t list \<Rightarrow> nat list \<Rightarrow> nat \<Rightarrow> flow_build \<Rightarrow>
   error + flow_build" where
  "construct_flow indptr_data indices_data eids node_mapping actl_layer_sizes i b =
     (if \<not> Suc i < length actl_layer_sizes then Inl OutOfBounds
      else
        (let src_size = actl_layer_sizes ! i;
             dst_size = actl_layer_sizes ! Suc i;
             first = fb_first b
         in
           (case read_all node_mapping [first..<first + src_size] of
              Inl e \<Rightarrow> Inl e
            | Inr srcs \<Rightarrow>
                (case foldM_err
                        (flow_row indptr_data indices_data eids node_mapping
                           (zip srcs [first..<first + src_size]))
                        [first + src_size..<first + src_size + dst_size] b of
                   Inl e \<Rightarrow> Inl e
                 | Inr b' \<Rightarrow>
                     Inr (b'\<lparr> fb_flow_offsets :=
                                 fb_flow_offsets b' @ [length (fb_sub_indices b')],
                               fb_first := first + src_size \<rparr>)))))"

text \<open>\<^verbatim>\<open>ConstructFlows\<close>; \<open>sub_eids\<close> is \<open>0, \<dots>, M - 1\<close>.\<close>

definition ConstructFlows ::
  "IdArray \<Rightarrow> IdArray \<Rightarrow> IdArray \<Rightarrow> dgl_id_t list \<Rightarrow> nat list \<Rightarrow>
   error + (dgl_id_t list \<times> dgl_id_t list \<times> dgl_id_t list \<times> dgl_id_t list \<times> dgl_id_t list)" where
  "ConstructFlows indptr_data indices_data eids node_mapping actl_layer_sizes =
     (if actl_layer_sizes = [] then Inl OutOfBounds
      else
        (case foldM_err
                (construct_flow indptr_data indices_data eids node_mapping actl_layer_sizes)
                [0..<length actl_layer_sizes - 1]
                \<lparr> fb_sub_indptr = replicate (hd actl_layer_sizes + 1) 0, fb_sub_indices = [],
                  fb_flow_offsets = [0], fb_edge_mapping = [], fb_first = 0 \<rparr> of
           Inl e \<Rightarrow> Inl e
         | Inr b \<Rightarrow>
             Inr (fb_sub_indptr b, fb_sub_indices b, [0..<length (fb_sub_indices b)],
                  fb_flow_offsets b, fb_edge_mapping b)))"

text \<open>\<^verbatim>\<open>SamplerOp::LayerUniformSample\<close>.  The constructor of the CSR from three
  arrays is not among the sources at hand; the model reads the number of rows off
  \<open>sub_indptr\<close>.\<close>

definition LayerUniformSample ::
  "hash_order \<Rightarrow> ImmutableGraph \<Rightarrow> dgl_id_t list \<Rightarrow> string \<Rightarrow> nat list \<Rightarrow> nat list \<Rightarrow>
   error + (NodeFlow \<times> nat list)" where
  "LayerUniformSample ord gr seeds neighbor_type layer_sizes rs =
     (case (if neighbor_type = ''in'' then GetInCSR (ig_views gr) else GetOutCSR (ig_views gr)) of
        Inl e \<Rightarrow> Inl e
      | Inr (g_csr, views') \<Rightarrow>
          (case ConstructLayers ord (indptr g_csr) (indices g_csr) seeds layer_sizes rs of
             Inl e \<Rightarrow> Inl e
           | Inr ((layer_offsets, node_mapping, actl_layer_sizes), rs') \<Rightarrow>
               (case ConstructFlows (indptr g_csr) (indices g_csr) (data g_csr) node_mapping
                       actl_layer_sizes of
                  Inl e \<Rightarrow> Inl e
                | Inr (sub_indptr, sub_indices, sub_edge_ids, flow_offsets, edge_mapping) \<Rightarrow>
                    if sub_indptr = [] then Inl SanityCheckFailed
                    else if sub_indptr ! 0 \<noteq> 0 then Inl SanityCheckFailed
                    else if last sub_indptr \<noteq> length sub_indices then Inl SanityCheckFailed
                    else if length sub_indices \<noteq> length sub_edge_ids then Inl SanityCheckFailed
                    else
                      (let sub_csr = \<lparr> num_rows = length sub_indptr - 1,
                                        num_cols = length sub_indptr - 1,
                                        indptr = sub_indptr, indices = sub_indices,
                                        data = sub_edge_ids \<rparr>
                       in Inr (\<lparr> nf_graph =
                                   (if neighbor_type = ''in''
                                    then \<lparr> in_csr = Some sub_csr, out_csr = None, coo = None \<rparr>
                                    else \<lparr> in_csr = None, out_csr = Some sub_csr, coo = None \<rparr>),
                                 nf_node_mapping = node_mapping,
                                 nf_edge_mapping = edge_mapping,
                                 nf_layer_offsets = layer_offsets,
                                 nf_flow_offsets = flow_offsets \<rparr>, rs')))))"

subsection \<open>Batch driver and entry points\<close>

text \<open>\<^verbatim>\<open>BuildCsr\<close>: materialise the view the workers will read.\<close>

definition BuildCsr :: "ImmutableGraph \<Rightarrow> string \<Rightarrow> error + ImmutableGraph" where
  "BuildCsr gr neigh_type =
     (if neigh_type = ''in'' then
        (case GetInCSR (ig_views gr) of
           Inl e \<Rightarrow> Inl e | Inr (c, v') \<Rightarrow> Inr (gr\<lparr>ig_views := v'\<rparr>))
      else if neigh_type = ''out'' then
        (case GetOutCSR (ig_views gr) of
           Inl e \<Rightarrow> Inl e | Inr (c, v') \<Rightarrow> Inr (gr\<lparr>ig_views := v'\<rparr>))
      else Inl UnsupportedNeighType)"

text \<open>The seeds of worker \<open>i\<close>.\<close>

definition worker_seeds :: "dgl_id_t list \<Rightarrow> nat \<Rightarrow> nat \<Rightarrow> nat \<Rightarrow> dgl_id_t list" where
  "worker_seeds seed_nodes batch_start_id batch_size i =
     (let start = (batch_start_id + i) * batch_size;
          end_pos = min (start + batch_size) (length seed_nodes)
      in take (end_pos - start) (drop start seed_nodes))"

text \<open>The workers of a batch run in parallel, each with its own thread-local
  random engine; worker \<open>i\<close> takes the \<open>i\<close>-th engine of the list \<open>gs\<close>.  A check that
  fails in a worker aborts the run.\<close>

fun run_workers :: "(nat \<Rightarrow> 'g \<Rightarrow> error + 'r) \<Rightarrow> nat list \<Rightarrow> 'g list \<Rightarrow> error + 'r list" where
  "run_workers f [] gs = Inr []"
| "run_workers f (i # is) [] = Inl DrawsExhausted"
| "run_workers f (i # is) (g # gs) =
     (case f i g of
        Inl e \<Rightarrow> Inl e
      | Inr r \<Rightarrow> (case run_workers f is gs of Inl e \<Rightarrow> Inl e | Inr rs \<Rightarrow> Inr (r # rs)))"

text \<open>\<^verbatim>\<open>NeighborSamplingImpl\<close>.  The seed array is an array of ids by its type, so
  \<^verbatim>\<open>IsValidIdArray\<close> holds; the numbers are natural numbers, a batch size of zero
  divides by zero, and a start past the last batch asks for a vector of negative
  length.\<close>

definition NeighborSamplingImpl ::
  "ImmutableGraph \<Rightarrow> dgl_id_t list \<Rightarrow> nat \<Rightarrow> nat \<Rightarrow> nat \<Rightarrow> nat \<Rightarrow> nat \<Rightarrow> string \<Rightarrow> bool \<Rightarrow>
   'a::{zero,plus,minus,times,ord} list option \<Rightarrow> 'a rng list \<Rightarrow> error + NodeFlow list" where
  "NeighborSamplingImpl gr seed_nodes batch_start_id batch_size max_num_workers expand_factor
     num_hops neigh_type add_self_loop probability gs =
     (if batch_size = 0 then Inl DivideByZero
      else
        (case BuildCsr gr neigh_type of
           Inl e \<Rightarrow> Inl e
         | Inr gr' \<Rightarrow>
             if (length seed_nodes + batch_size - 1) div batch_size < batch_start_id
             then Inl NegativeLength
             else
               (let num_workers = min max_num_workers
                      ((length seed_nodes + batch_size - 1) div batch_size - batch_start_id)
                in
                  run_workers
                    (\<lambda>i g. case NeighborSample gr'
                                   (worker_seeds seed_nodes batch_start_id batch_size i)
                                   neigh_type num_hops expand_factor add_self_loop probability g of
                              Inl e \<Rightarrow> Inl e
                            | Inr (nf, g') \<Rightarrow> Inr nf)
                    [0..<num_workers] gs)))"

text \<open>Modelled from the spec: \<^verbatim>\<open>num_edges()\<close> is read from any present view.\<close>

definition ig_NumEdges :: "ImmutableGraph \<Rightarrow> nat" where
  "ig_NumEdges gr =
     (case in_csr (ig_views gr) of
        Some c \<Rightarrow> length (indices c)
      | None \<Rightarrow>
          (case out_csr (ig_views gr) of
             Some c \<Rightarrow> length (indices c)
           | None \<Rightarrow> (case coo (ig_views gr) of Some c \<Rightarrow> length (row c) | None \<Rightarrow> 0)))"

text \<open>An \<^verbatim>\<open>NDArray\<close> as the entry points see it: the type code and width of its
  elements, its shape, whether it is contiguous, and its elements.\<close>

datatype dtype_code = kDLInt | kDLUInt | kDLFloat

record 'a NDArray =
  nd_dtype_code :: dtype_code
  nd_dtype_bits :: nat
  nd_shape :: "nat list"
  nd_contiguous :: bool
  nd_data :: "'a list"

text \<open>\<^verbatim>\<open>_CAPI_UniformSampling\<close>.  The graph argument is an immutable graph by its
  type.\<close>

definition CAPI_UniformSampling ::
  "ImmutableGraph \<Rightarrow> dgl_id_t list \<Rightarrow> nat \<Rightarrow> nat \<Rightarrow> nat \<Rightarrow> nat \<Rightarrow> nat \<Rightarrow> string \<Rightarrow> bool \<Rightarrow>
   'a::{zero,plus,minus,times,ord} rng list \<Rightarrow> error + NodeFlow list" where
  "CAPI_UniformSampling gr seed_nodes batch_start_id batch_size max_num_workers expand_factor
     num_hops neigh_type add_self_loop gs =
     NeighborSamplingImpl gr seed_nodes batch_start_id batch_size max_num_workers expand_factor
       num_hops neigh_type add_self_loop None gs"

text \<open>\<^verbatim>\<open>_CAPI_NeighborSampling\<close>.  The macro \<^verbatim>\<open>ATEN_FLOAT_TYPE_SWITCH\<close> is not among
  the sources at hand; \<open>float_width_ok\<close> says for which widths it runs its body, and
  for the others it is fatal.\<close>

definition CAPI_NeighborSampling ::
  "(nat \<Rightarrow> bool) \<Rightarrow> ImmutableGraph \<Rightarrow> dgl_id_t list \<Rightarrow> nat \<Rightarrow> nat \<Rightarrow> nat \<Rightarrow> nat \<Rightarrow> nat \<Rightarrow>
   string \<Rightarrow> bool \<Rightarrow> 'a::{zero,plus,minus,times,ord} NDArray \<Rightarrow> 'a rng list \<Rightarrow>
   error + NodeFlow list" where
  "CAPI_NeighborSampling float_width_ok gr seed_nodes batch_start_id batch_size max_num_workers
     expand_factor num_hops neigh_type add_self_loop probability gs =
     (if nd_dtype_code probability \<noteq> kDLFloat then Inl ProbabilityNotFloat
      else if length (nd_shape probability) \<noteq> 1 then Inl ProbabilityNot1D
      else if \<not> float_width_ok (nd_dtype_bits probability) then Inl ProbabilityBadFloatWidth
      else if length (nd_shape probability) = 1 \<and> nd_shape probability ! 0 = 0 then
        NeighborSamplingImpl gr seed_nodes batch_start_id batch_size max_num_workers
          expand_factor num_hops neigh_type add_self_loop None gs
      else if nd_shape probability ! 0 \<noteq> ig_NumEdges gr then Inl ProbabilityShapeMismatch
      else if \<not> nd_contiguous probability then Inl ProbabilityNotContiguous
      else
        NeighborSamplingImpl gr seed_nodes batch_start_id batch_size max_num_workers
          expand_factor num_hops neigh_type add_self_loop (Some (nd_data probability)) gs)"

subsection \<open>Invariants of a node flow\<close>

text \<open>The CSR of the graph of a node flow: the in-CSR when there is one, else the
  out-CSR.\<close>

definition nf_csr :: "NodeFlow \<Rightarrow> CSRMatrix option" where
  "nf_csr nf = (case in_csr (nf_graph nf) of Some c \<Rightarrow> Some c | None \<Rightarrow> out_csr (nf_graph nf))"

text \<open>The invariants of a node flow over a source graph of \<open>n\<close> vertices: the layer
  offsets start at zero and end at the number of vertices of the flow, the flow
  offsets end at its number of edges, the row pointers of its CSR never decrease
  and end at the number of edges, and the node mapping holds vertex ids of the
  source graph.\<close>

definition NodeFlow_invariants :: "nat \<Rightarrow> NodeFlow \<Rightarrow> bool" where
  "NodeFlow_invariants n nf =
     (nf_layer_offsets nf \<noteq> [] \<and> nf_layer_offsets nf ! 0 = 0 \<and>
      last (nf_layer_offsets nf) = length (nf_node_mapping nf) \<and>
      nf_flow_offsets nf \<noteq> [] \<and>
      last (nf_flow_offsets nf) = length (nf_edge_mapping nf) \<and>
      (case nf_csr nf of
         None \<Rightarrow> False
       | Some c \<Rightarrow> indptr c \<noteq> [] \<and> sorted (indptr c) \<and>
                   last (indptr c) = length (nf_edge_mapping nf)) \<and>
      (\<forall>v \<in> set (nf_node_mapping nf). v < n))"

subsection \<open>Example graphs for the samplers\<close>

text \<open>The path \<open>0 \<rightarrow> 1 \<rightarrow> 2 \<rightarrow> 3 \<rightarrow> 4\<close>, with zeros behind its arrays.\<close>

definition zero_behind :: memory where
  "zero_behind = \<lparr> behind_vids = (\<lambda>i. 0), behind_eids = (\<lambda>i. 0) \<rparr>"

definition path5 :: ImmutableGraph where
  "path5 = \<lparr> ig_views = CreateFromCOO 5 5 [0, 1, 2, 3] [1, 2, 3, 4], ig_num_bits = 64,
              ig_behind = zero_behind \<rparr>"

text \<open>The star with the edges \<open>1 \<rightarrow> 0\<close>, \<open>2 \<rightarrow> 0\<close>, \<open>3 \<rightarrow> 0\<close>, with the word \<open>99\<close> behind the
  column indices of its CSR and the word \<open>77\<close> behind its edge ids.\<close>

definition star4 :: ImmutableGraph where
  "star4 = \<lparr> ig_views = CreateFromCOO 4 4 [1, 2, 3] [0, 0, 0], ig_num_bits = 64,
              ig_behind = \<lparr> behind_vids = (\<lambda>i. 99), behind_eids = (\<lambda>i. 77) \<rparr> \<rparr>"

section \<open>Properties of the bipartite graph\<close>

lemma bip34_in_view: "GetInCSR bip34 = Inr (bip34_in, bip34\<lparr>in_csr := Some bip34_in\<rparr>)"
  by code_simp

lemma bip34_out_view:
  "GetOutCSR (bip34\<lparr>in_csr := Some bip34_in\<rparr>) = Inr (bip34_out, bip34_both)"
  by code_simp

text \<open>
  Claim C6, as stated: \<^verbatim>\<open>has_edge_between\<close> answers from the out-CSR view
  preferentially and falls back to the in-CSR view only when the out-CSR cannot
  serve the query.  The code does the opposite.  \<open>bip34_both\<close> is the example graph
  after both CSR views have been materialised (\<open>bip34_in_view\<close>, \<open>bip34_out_view\<close>);
  its source type has the vertices \<open>0, 1, 2\<close>.  Asked for an edge from the missing
  source vertex \<open>3\<close>, the out-CSR reports an invalid source id, but the graph
  answers with the complaint of the in-CSR, which received the arguments swapped
  and sees \<open>3\<close> as its destination.
\<close>

theorem C6_counterexample:
  "out_csr bip34_both = Some bip34_out \<and>
   CSR_HasEdgeBetween bip34_out 0 3 0 = Inl (InvalidSrcVertexId 3) \<and>
   HasEdgeBetween bip34_both 0 3 0 = Inl (InvalidDstVertexId 3) \<and>
   HasEdgeBetween bip34_both 0 3 0 \<noteq> HasEdgeBetween_out_first bip34_both 0 3 0"
  by code_simp

text \<open>
  Claim C6, amended: \<^verbatim>\<open>has_edge_between\<close> and \<^verbatim>\<open>has_edges_between\<close> answer from the
  in-CSR view, queried with source and destination swapped, whenever the in-CSR is
  present, and leave the graph as it is; only when there is no in-CSR do they
  answer from the out-CSR view, which is materialised if absent.
\<close>

theorem C6_HasEdgeBetween_in_first:
  "(in_csr g = Some ic \<longrightarrow>
      HasEdgeBetween g etype src dst =
        (case CSR_HasEdgeBetween ic etype dst src of Inl e \<Rightarrow> Inl e | Inr b \<Rightarrow> Inr (b, g)) \<and>
      HasEdgesBetween g etype srcs dsts =
        (case CSR_HasEdgesBetween ic etype dsts srcs of Inl e \<Rightarrow> Inl e | Inr b \<Rightarrow> Inr (b, g))) \<and>
   (in_csr g = None \<longrightarrow>
      HasEdgeBetween g etype src dst =
        (case GetOutCSR g of
           Inl e \<Rightarrow> Inl e
         | Inr (oc, g') \<Rightarrow>
             (case CSR_HasEdgeBetween oc etype src dst of
                Inl e \<Rightarrow> Inl e | Inr b \<Rightarrow> Inr (b, g'))) \<and>
      HasEdgesBetween g etype srcs dsts =
        (case GetOutCSR g of
           Inl e \<Rightarrow> Inl e
         | Inr (oc, g') \<Rightarrow>
             (case CSR_HasEdgesBetween oc etype srcs dsts of
                Inl e \<Rightarrow> Inl e | Inr b \<Rightarrow> Inr (b, g'))))"
  by (simp add: HasEdgeBetween_def HasEdgesBetween_def)

text \<open>The amended claim at the example graph: with both views present the edge
  \<open>2 \<rightarrow> 3\<close> is found through the in-CSR; with the COO view alone the out-CSR is built
  and answers.\<close>

theorem C6_HasEdgeBetween_in_first_witness:
  "in_csr bip34_both = Some bip34_in \<and>
   HasEdgeBetween bip34_both 0 2 3 = Inr (True, bip34_both) \<and>
   HasEdgesBetween bip34_both 0 [0, 2] [2, 2] = Inr ([True, False], bip34_both) \<and>
   in_csr bip34 = None \<and>
   HasEdgeBetween bip34 0 2 3 = Inr (True, bip34\<lparr>out_csr := Some bip34_out\<rparr>) \<and>
   HasEdgesBetween bip34 0 [0, 2] [2, 2] = Inr ([True, False], bip34\<lparr>out_csr := Some bip34_out\<rparr>)"
proof -
  have i: "in_csr bip34_both = Some bip34_in" by code_simp
  have n: "in_csr bip34 = None" by code_simp
  have o: "GetOutCSR bip34 = Inr (bip34_out, bip34\<lparr>out_csr := Some bip34_out\<rparr>)" by code_simp
  have q1: "CSR_HasEdgeBetween bip34_in 0 3 2 = Inr True" by code_simp
  have q2: "CSR_HasEdgesBetween bip34_in 0 [2, 2] [0, 2] = Inr [True, False]" by code_simp
  have q3: "CSR_HasEdgeBetween bip34_out 0 2 3 = Inr True" by code_simp
  have q4: "CSR_HasEdgesBetween bip34_out 0 [0, 2] [2, 2] = Inr [True, False]" by code_simp
  from C6_HasEdgeBetween_in_first [of bip34_both bip34_in 0 2 3 "[0, 2]" "[2, 2]"]
       C6_HasEdgeBetween_in_first [of bip34 bip34_in 0 2 3 "[0, 2]" "[2, 2]"]
  show ?thesis by (simp add: i n o q1 q2 q3 q4)
qed

text \<open>The entries of the CSR built from a COO matrix, and of a transpose.\<close>

lemma map_filter_eq_replicate:
  "map f (filter (\<lambda>e. f e = r) xs) = replicate (length (filter (\<lambda>e. f e = r) xs)) r"
  by (induction xs) simp_all

lemma length_filter_less_Suc:
  "length (filter (\<lambda>e. f e < Suc r) xs) =
     length (filter (\<lambda>e. f e < r) xs) + length (filter (\<lambda>e. (f e :: nat) = r) xs)"
  by (induction xs) (auto simp: less_Suc_eq)

lemma length_concat_rows:
  "length (concat (map (\<lambda>r. filter (\<lambda>e. f e = r) xs) [0..<nr])) =
     length (filter (\<lambda>e. (f e :: nat) < nr) xs)"
  by (induction nr) (simp_all add: length_filter_less_Suc)

lemma set_concat_rows:
  "set (concat (map (\<lambda>r. filter (\<lambda>e. f e = r) xs) [0..<nr])) = {e \<in> set xs. (f e :: nat) < nr}"
  by auto

lemma coo_to_csr_with_entries:
  "csr_entries (coo_to_csr_with nr nc rw cl ids) =
     map (\<lambda>e. (rw ! e, cl ! e, ids ! e))
       (concat (map (\<lambda>r. filter (\<lambda>e. rw ! e = r) [0..<length rw]) [0..<nr]))"
proof -
  let ?n = "length rw"
  let ?ord = "concat (map (\<lambda>r. filter (\<lambda>e. rw ! e = r) [0..<?n]) [0..<nr])"
  let ?ip = "map (\<lambda>r. length (filter (\<lambda>e. rw ! e < r) [0..<?n])) [0..<Suc nr]"
  have ip: "?ip ! Suc r - ?ip ! r = length (filter (\<lambda>e. rw ! e = r) [0..<?n])" if "r < nr" for r
  proof -
    have "?ip ! Suc r = length (filter (\<lambda>e. rw ! e < Suc r) [0..<?n])"
      using that by (simp del: upt_Suc)
    moreover have "?ip ! r = length (filter (\<lambda>e. rw ! e < r) [0..<?n])"
      using that by (simp del: upt_Suc)
    ultimately show ?thesis by (simp add: length_filter_less_Suc)
  qed
  have "csr_rows (coo_to_csr_with nr nc rw cl ids) =
          concat (map (\<lambda>r. replicate (?ip ! Suc r - ?ip ! r) r) [0..<nr])"
    by (simp add: csr_rows_def coo_to_csr_with_def Let_def del: upt_Suc)
  also have "\<dots> = concat (map (\<lambda>r. replicate (length (filter (\<lambda>e. rw ! e = r) [0..<?n])) r)
                       [0..<nr])"
    using ip by (intro arg_cong [where f = concat] map_cong) simp_all
  also have "\<dots> = concat (map (\<lambda>r. map (\<lambda>e. rw ! e) (filter (\<lambda>e. rw ! e = r) [0..<?n])) [0..<nr])"
    by (simp only: map_filter_eq_replicate [of "\<lambda>e. rw ! e"])
  also have "\<dots> = map (\<lambda>e. rw ! e) ?ord" by (simp add: map_concat comp_def)
  finally have rows: "csr_rows (coo_to_csr_with nr nc rw cl ids) = map (\<lambda>e. rw ! e) ?ord" .
  have "indices (coo_to_csr_with nr nc rw cl ids) = map (\<lambda>e. cl ! e) ?ord"
       "data (coo_to_csr_with nr nc rw cl ids) = map (\<lambda>e. ids ! e) ?ord"
    by (simp_all add: coo_to_csr_with_def Let_def)
  with rows show ?thesis
    unfolding csr_entries_def by (simp add: zip_map_map map_zip_map zip_same_conv_map)
qed


lemma coo_to_csr_with_entries_set:
  assumes "\<forall>i < length rw. rw ! i < nr"
  shows "set (csr_entries (coo_to_csr_with nr nc rw cl ids)) =
           (\<lambda>e. (rw ! e, cl ! e, ids ! e)) ` {0..<length rw} \<and>
         length (csr_entries (coo_to_csr_with nr nc rw cl ids)) = length rw"
proof -
  let ?n = "length rw"
  let ?ord = "concat (map (\<lambda>r. filter (\<lambda>e. rw ! e = r) [0..<?n]) [0..<nr])"
  have all: "filter (\<lambda>e. rw ! e < nr) [0..<?n] = [0..<?n]"
    using assms by (intro filter_True) simp
  have "set ?ord = {e \<in> set [0..<?n]. rw ! e < nr}" by (rule set_concat_rows)
  then have s: "set ?ord = {0..<?n}" using assms by auto
  have "length ?ord = length (filter (\<lambda>e. rw ! e < nr) [0..<?n])" by (rule length_concat_rows)
  then have l: "length ?ord = ?n" by (simp only: all length_upt minus_nat.diff_0)
  show ?thesis unfolding coo_to_csr_with_entries using s l by simp
qed

lemma COOToCSR_entries:
  assumes "\<forall>i < length (row c). row c ! i < coo_num_rows c"
  shows "set (csr_entries (COOToCSR c)) =
           (\<lambda>e. (row c ! e, col c ! e, e)) ` {0..<length (row c)} \<and>
         length (csr_entries (COOToCSR c)) = length (row c)"
proof -
  have "(\<lambda>e. (row c ! e, col c ! e, [0..<length (row c)] ! e)) ` {0..<length (row c)} =
        (\<lambda>e. (row c ! e, col c ! e, e)) ` {0..<length (row c)}"
    by (intro image_cong) simp_all
  then show ?thesis
    unfolding COOToCSR_def
    using coo_to_csr_with_entries_set [OF assms, of "coo_num_cols c" "col c" "[0..<length (row c)]"]
    by simp
qed

lemma CSRTranspose_entries:
  assumes "length (csr_rows A) = length (indices A)" and "length (data A) = length (indices A)"
    and "\<forall>i < length (indices A). indices A ! i < num_cols A"
  shows "set (csr_entries (CSRTranspose A)) = (\<lambda>(r, c, e). (c, r, e)) ` set (csr_entries A) \<and>
         length (csr_entries (CSRTranspose A)) = length (csr_entries A)"
proof -
  let ?m = "length (indices A)"
  have z: "csr_entries A = map (\<lambda>e. (csr_rows A ! e, indices A ! e, data A ! e)) [0..<?m]"
    unfolding csr_entries_def using assms(1,2)
    by (intro nth_equalityI) simp_all
  have "set (csr_entries A) = (\<lambda>e. (csr_rows A ! e, indices A ! e, data A ! e)) ` {0..<?m}"
    unfolding z by simp
  then have "(\<lambda>(r, c, e). (c, r, e)) ` set (csr_entries A) =
             (\<lambda>e. (indices A ! e, csr_rows A ! e, data A ! e)) ` {0..<?m}"
    by (simp add: image_image)
  moreover have "length (csr_entries A) = ?m" unfolding z by simp
  ultimately show ?thesis
    unfolding CSRTranspose_def
    using coo_to_csr_with_entries_set [OF assms(3), of "num_rows A" "csr_rows A" "data A"]
    by simp
qed


text \<open>
  Claim C7: for every bipartite graph, \<^verbatim>\<open>get_adj\<close> with \<^verbatim>\<open>fmt="csr"\<close> and
  \<^verbatim>\<open>transpose=false\<close> returns the triple \<open>(indptr, indices, data)\<close> of the in-CSR,
  and with \<^verbatim>\<open>transpose=true\<close> the triple of the out-CSR.  The view is the one the
  graph holds; when it is absent it is the transpose of the other CSR view, or,
  when the graph holds neither, the CSR of the COO view (with rows and columns
  exchanged for the in-CSR), and the graph keeps it.  The rows of the out-CSR built
  from the COO view are the sources of the edges, the rows of the in-CSR their
  destinations, each entry with the id of its edge; a transpose holds the entries of
  its argument with row and column exchanged.
\<close>

theorem C7_GetAdj_csr:
  "GetAdj g etype False ''csr'' =
     (case in_csr g of
        Some ic \<Rightarrow> Inr ([indptr ic, indices ic, data ic], g)
      | None \<Rightarrow>
          (case out_csr g of
             Some oc \<Rightarrow>
               Inr ([indptr (CSRTranspose oc), indices (CSRTranspose oc),
                     data (CSRTranspose oc)], g\<lparr>in_csr := Some (CSRTranspose oc)\<rparr>)
           | None \<Rightarrow>
               (case coo g of
                  Some c \<Rightarrow>
                    Inr ([indptr (COOToCSR (coo_swap c)), indices (COOToCSR (coo_swap c)),
                          data (COOToCSR (coo_swap c))],
                         g\<lparr>in_csr := Some (COOToCSR (coo_swap c))\<rparr>)
                | None \<Rightarrow> Inl NoGraphStructure))) \<and>
   GetAdj g etype True ''csr'' =
     (case out_csr g of
        Some oc \<Rightarrow> Inr ([indptr oc, indices oc, data oc], g)
      | None \<Rightarrow>
          (case in_csr g of
             Some ic \<Rightarrow>
               Inr ([indptr (CSRTranspose ic), indices (CSRTranspose ic),
                     data (CSRTranspose ic)], g\<lparr>out_csr := Some (CSRTranspose ic)\<rparr>)
           | None \<Rightarrow>
               (case coo g of
                  Some c \<Rightarrow>
                    Inr ([indptr (COOToCSR c), indices (COOToCSR c), data (COOToCSR c)],
                         g\<lparr>out_csr := Some (COOToCSR c)\<rparr>)
                | None \<Rightarrow> Inl NoGraphStructure))) \<and>
   ((\<forall>i < length (row c). row c ! i < coo_num_rows c) \<longrightarrow>
      set (csr_entries (COOToCSR c)) =
        (\<lambda>e. (row c ! e, col c ! e, e)) ` {0..<length (row c)} \<and>
      length (csr_entries (COOToCSR c)) = length (row c)) \<and>
   ((\<forall>i < length (col c). col c ! i < coo_num_cols c) \<longrightarrow>
      set (csr_entries (COOToCSR (coo_swap c))) =
        (\<lambda>e. (col c ! e, row c ! e, e)) ` {0..<length (col c)} \<and>
      length (csr_entries (COOToCSR (coo_swap c))) = length (col c)) \<and>
   (length (csr_rows A) = length (indices A) \<and> length (data A) = length (indices A) \<and>
    (\<forall>i < length (indices A). indices A ! i < num_cols A) \<longrightarrow>
      set (csr_entries (CSRTranspose A)) = (\<lambda>(r, c, e). (c, r, e)) ` set (csr_entries A) \<and>
      length (csr_entries (CSRTranspose A)) = length (csr_entries A))"
proof (intro conjI impI)
  show "GetAdj g etype False ''csr'' =
     (case in_csr g of
        Some ic \<Rightarrow> Inr ([indptr ic, indices ic, data ic], g)
      | None \<Rightarrow>
          (case out_csr g of
             Some oc \<Rightarrow>
               Inr ([indptr (CSRTranspose oc), indices (CSRTranspose oc),
                     data (CSRTranspose oc)], g\<lparr>in_csr := Some (CSRTranspose oc)\<rparr>)
           | None \<Rightarrow>
               (case coo g of
                  Some c \<Rightarrow>
                    Inr ([indptr (COOToCSR (coo_swap c)), indices (COOToCSR (coo_swap c)),
                          data (COOToCSR (coo_swap c))],
                         g\<lparr>in_csr := Some (COOToCSR (coo_swap c))\<rparr>)
                | None \<Rightarrow> Inl NoGraphStructure)))"
    by (simp add: GetAdj_def GetInCSR_def CSR_GetAdj_def coo_swap_def Let_def
             split: option.splits)
  show "GetAdj g etype True ''csr'' =
     (case out_csr g of
        Some oc \<Rightarrow> Inr ([indptr oc, indices oc, data oc], g)
      | None \<Rightarrow>
          (case in_csr g of
             Some ic \<Rightarrow>
               Inr ([indptr (CSRTranspose ic), indices (CSRTranspose ic),
                     data (CSRTranspose ic)], g\<lparr>out_csr := Some (CSRTranspose ic)\<rparr>)
           | None \<Rightarrow>
               (case coo g of
                  Some c \<Rightarrow>
                    Inr ([indptr (COOToCSR c), indices (COOToCSR c), data (COOToCSR c)],
                         g\<lparr>out_csr := Some (COOToCSR c)\<rparr>)
                | None \<Rightarrow> Inl NoGraphStructure)))"
    by (simp add: GetAdj_def GetOutCSR_def CSR_GetAdj_def Let_def split: option.splits)
next
  assume a: "\<forall>i < length (row c). row c ! i < coo_num_rows c"
  from COOToCSR_entries [OF a]
  show "set (csr_entries (COOToCSR c)) =
        (\<lambda>e. (row c ! e, col c ! e, e)) ` {0..<length (row c)}"
    and "length (csr_entries (COOToCSR c)) = length (row c)"
    by blast+
next
  assume a: "\<forall>i < length (col c). col c ! i < coo_num_cols c"
  then have "\<forall>i < length (row (coo_swap c)). row (coo_swap c) ! i < coo_num_rows (coo_swap c)"
    by (simp add: coo_swap_def)
  from COOToCSR_entries [OF this]
  show "set (csr_entries (COOToCSR (coo_swap c))) =
        (\<lambda>e. (col c ! e, row c ! e, e)) ` {0..<length (col c)}"
    and "length (csr_entries (COOToCSR (coo_swap c))) = length (col c)"
    by (simp_all add: coo_swap_def)
next
  assume a: "length (csr_rows A) = length (indices A) \<and> length (data A) = length (indices A) \<and>
    (\<forall>i < length (indices A). indices A ! i < num_cols A)"
  then have a1: "length (csr_rows A) = length (indices A)"
    and a2: "length (data A) = length (indices A)"
    and a3: "\<forall>i < length (indices A). indices A ! i < num_cols A"
    by blast+
  from CSRTranspose_entries [OF a1 a2 a3]
  show "set (csr_entries (CSRTranspose A)) = (\<lambda>(r, c, e). (c, r, e)) ` set (csr_entries A)"
    and "length (csr_entries (CSRTranspose A)) = length (csr_entries A)"
    by blast+
qed

text \<open>The claim at a graph built from a CSR, whose in-CSR is the transpose of the
  CSR given, and at the example graph built from COO arrays.\<close>

theorem C7_GetAdj_csr_witness:
  "GetAdj (CreateFromCSR 3 4 [0, 2, 3, 4] [1, 2, 0, 3] [3, 0, 2, 1]) 0 False ''csr'' =
     Inr ([[0, 1, 2, 3, 4], [1, 0, 0, 2], [2, 3, 0, 1]],
          (CreateFromCSR 3 4 [0, 2, 3, 4] [1, 2, 0, 3] [3, 0, 2, 1])
            \<lparr>in_csr := Some \<lparr>num_rows = 4, num_cols = 3, indptr = [0, 1, 2, 3, 4],
                              indices = [1, 0, 0, 2], data = [2, 3, 0, 1]\<rparr>\<rparr>) \<and>
   GetAdj (CreateFromCSR 3 4 [0, 2, 3, 4] [1, 2, 0, 3] [3, 0, 2, 1]) 0 True ''csr'' =
     Inr ([[0, 2, 3, 4], [1, 2, 0, 3], [3, 0, 2, 1]],
          CreateFromCSR 3 4 [0, 2, 3, 4] [1, 2, 0, 3] [3, 0, 2, 1]) \<and>
   GetAdj bip34 0 False ''csr'' =
     Inr ([[0, 1, 2, 3, 4], [1, 0, 0, 2], [2, 0, 1, 3]], bip34\<lparr>in_csr := Some bip34_in\<rparr>) \<and>
   GetAdj bip34 0 True ''csr'' =
     Inr ([[0, 2, 3, 4], [1, 2, 0, 3], [0, 1, 2, 3]], bip34\<lparr>out_csr := Some bip34_out\<rparr>) \<and>
   csr_entries csr_example = [(0, 1, 3), (0, 2, 0), (1, 0, 2), (2, 3, 1)] \<and>
   set (csr_entries (CSRTranspose csr_example)) = {(1, 0, 3), (2, 0, 0), (0, 1, 2), (3, 2, 1)} \<and>
   set (csr_entries bip34_in) = {(1, 0, 0), (2, 0, 1), (0, 1, 2), (3, 2, 3)} \<and>
   set (csr_entries bip34_out) = {(0, 1, 0), (0, 2, 1), (1, 0, 2), (2, 3, 3)}"
proof -
  let ?g = "CreateFromCSR 3 4 [0, 2, 3, 4] [1, 2, 0, 3] [3, 0, 2, 1]"
  let ?c = "\<lparr> coo_num_rows = 3, coo_num_cols = 4, row = [0, 0, 1, 2], col = [1, 2, 0, 3] \<rparr>"
  note T1 = C7_GetAdj_csr [of ?g 0 ?c csr_example]
  note T2 = C7_GetAdj_csr [of bip34 0 ?c csr_example]
  have e1: "(case in_csr ?g of
        Some ic \<Rightarrow> Inr ([indptr ic, indices ic, data ic], ?g)
      | None \<Rightarrow>
          (case out_csr ?g of
             Some oc \<Rightarrow>
               Inr ([indptr (CSRTranspose oc), indices (CSRTranspose oc),
                     data (CSRTranspose oc)], ?g\<lparr>in_csr := Some (CSRTranspose oc)\<rparr>)
           | None \<Rightarrow>
               (case coo ?g of
                  Some c \<Rightarrow>
                    Inr ([indptr (COOToCSR (coo_swap c)), indices (COOToCSR (coo_swap c)),
                          data (COOToCSR (coo_swap c))],
                         ?g\<lparr>in_csr := Some (COOToCSR (coo_swap c))\<rparr>)
                | None \<Rightarrow> Inl NoGraphStructure))) =
     Inr ([[0, 1, 2, 3, 4], [1, 0, 0, 2], [2, 3, 0, 1]],
          ?g\<lparr>in_csr := Some \<lparr>num_rows = 4, num_cols = 3, indptr = [0, 1, 2, 3, 4],
                              indices = [1, 0, 0, 2], data = [2, 3, 0, 1]\<rparr>\<rparr>)"
    by code_simp
  have e2: "(case out_csr ?g of
        Some oc \<Rightarrow> Inr ([indptr oc, indices oc, data oc], ?g)
      | None \<Rightarrow>
          (case in_csr ?g of
             Some ic \<Rightarrow>
               Inr ([indptr (CSRTranspose ic), indices (CSRTranspose ic),
                     data (CSRTranspose ic)], ?g\<lparr>out_csr := Some (CSRTranspose ic)\<rparr>)
           | None \<Rightarrow>
               (case coo ?g of
                  Some c \<Rightarrow>
                    Inr ([indptr (COOToCSR c), indices (COOToCSR c), data (COOToCSR c)],
                         ?g\<lparr>out_csr := Some (COOToCSR c)\<rparr>)
                | None \<Rightarrow> Inl NoGraphStructure))) =
     Inr ([[0, 2, 3, 4], [1, 2, 0, 3], [3, 0, 2, 1]], ?g)"
    by code_simp
  have e3: "(case in_csr bip34 of
        Some ic \<Rightarrow> Inr ([indptr ic, indices ic, data ic], bip34)
      | None \<Rightarrow>
          (case out_csr bip34 of
             Some oc \<Rightarrow>
               Inr ([indptr (CSRTranspose oc), indices (CSRTranspose oc),
                     data (CSRTranspose oc)], bip34\<lparr>in_csr := Some (CSRTranspose oc)\<rparr>)
           | None \<Rightarrow>
               (case coo bip34 of
                  Some c \<Rightarrow>
                    Inr ([indptr (COOToCSR (coo_swap c)), indices (COOToCSR (coo_swap c)),
                          data (COOToCSR (coo_swap c))],
                         bip34\<lparr>in_csr := Some (COOToCSR (coo_swap c))\<rparr>)
                | None \<Rightarrow> Inl NoGraphStructure))) =
     Inr ([[0, 1, 2, 3, 4], [1, 0, 0, 2], [2, 0, 1, 3]], bip34\<lparr>in_csr := Some bip34_in\<rparr>)"
    by code_simp
  have e4: "(case out_csr bip34 of
        Some oc \<Rightarrow> Inr ([indptr oc, indices oc, data oc], bip34)
      | None \<Rightarrow>
          (case in_csr bip34 of
             Some ic \<Rightarrow>
               Inr ([indptr (CSRTranspose ic), indices (CSRTranspose ic),
                     data (CSRTranspose ic)], bip34\<lparr>out_csr := Some (CSRTranspose ic)\<rparr>)
           | None \<Rightarrow>
               (case coo bip34 of
                  Some c \<Rightarrow>
                    Inr ([indptr (COOToCSR c), indices (COOToCSR c), data (COOToCSR c)],
                         bip34\<lparr>out_csr := Some (COOToCSR c)\<rparr>)
                | None \<Rightarrow> Inl NoGraphStructure))) =
     Inr ([[0, 2, 3, 4], [1, 2, 0, 3], [0, 1, 2, 3]], bip34\<lparr>out_csr := Some bip34_out\<rparr>)"
    by code_simp
  have r1: "GetAdj ?g 0 False ''csr'' =
     Inr ([[0, 1, 2, 3, 4], [1, 0, 0, 2], [2, 3, 0, 1]],
          ?g\<lparr>in_csr := Some \<lparr>num_rows = 4, num_cols = 3, indptr = [0, 1, 2, 3, 4],
                              indices = [1, 0, 0, 2], data = [2, 3, 0, 1]\<rparr>\<rparr>)"
    using T1 unfolding e1 by (rule conjunct1)
  have r2: "GetAdj ?g 0 True ''csr'' = Inr ([[0, 2, 3, 4], [1, 2, 0, 3], [3, 0, 2, 1]], ?g)"
    using T1 unfolding e2 by blast
  have r3: "GetAdj bip34 0 False ''csr'' =
     Inr ([[0, 1, 2, 3, 4], [1, 0, 0, 2], [2, 0, 1, 3]], bip34\<lparr>in_csr := Some bip34_in\<rparr>)"
    using T2 unfolding e3 by (rule conjunct1)
  have r4: "GetAdj bip34 0 True ''csr'' =
     Inr ([[0, 2, 3, 4], [1, 2, 0, 3], [0, 1, 2, 3]], bip34\<lparr>out_csr := Some bip34_out\<rparr>)"
    using T2 unfolding e4 by blast
  have ce: "csr_entries csr_example = [(0, 1, 3), (0, 2, 0), (1, 0, 2), (2, 3, 1)]"
    by code_simp
  have h: "length (csr_rows csr_example) = length (indices csr_example) \<and>
           length (data csr_example) = length (indices csr_example) \<and>
           (\<forall>i < length (indices csr_example). indices csr_example ! i < num_cols csr_example)"
    by code_simp
  from T1 h have "set (csr_entries (CSRTranspose csr_example)) =
                    (\<lambda>(r, c, e). (c, r, e)) ` set (csr_entries csr_example)"
    by blast
  then have r5: "set (csr_entries (CSRTranspose csr_example)) =
                   {(1, 0, 3), (2, 0, 0), (0, 1, 2), (3, 2, 1)}"
    unfolding ce by simp
  have hc: "\<forall>i < length (row ?c). row ?c ! i < coo_num_rows ?c"
       "\<forall>i < length (col ?c). col ?c ! i < coo_num_cols ?c"
    by (simp_all add: less_Suc_eq numeral_eq_Suc)
  have io: "COOToCSR (coo_swap ?c) = bip34_in" "COOToCSR ?c = bip34_out" by code_simp+
  have m1: "map (\<lambda>e. (col ?c ! e, row ?c ! e, e)) [0..<length (col ?c)] =
              [(1, 0, 0), (2, 0, 1), (0, 1, 2), (3, 2, 3)]" by code_simp
  have m2: "map (\<lambda>e. (row ?c ! e, col ?c ! e, e)) [0..<length (row ?c)] =
              [(0, 1, 0), (0, 2, 1), (1, 0, 2), (2, 3, 3)]" by code_simp
  from T1 hc(2) have "set (csr_entries (COOToCSR (coo_swap ?c))) =
        (\<lambda>e. (col ?c ! e, row ?c ! e, e)) ` {0..<length (col ?c)}"
    by blast
  then have "set (csr_entries bip34_in) =
               set (map (\<lambda>e. (col ?c ! e, row ?c ! e, e)) [0..<length (col ?c)])"
    unfolding io by (simp only: set_map set_upt)
  then have r6: "set (csr_entries bip34_in) = {(1, 0, 0), (2, 0, 1), (0, 1, 2), (3, 2, 3)}"
    unfolding m1 by simp
  from T1 hc(1) have "set (csr_entries (COOToCSR ?c)) =
        (\<lambda>e. (row ?c ! e, col ?c ! e, e)) ` {0..<length (row ?c)}"
    by blast
  then have "set (csr_entries bip34_out) =
               set (map (\<lambda>e. (row ?c ! e, col ?c ! e, e)) [0..<length (row ?c)])"
    unfolding io by (simp only: set_map set_upt)
  then have r7: "set (csr_entries bip34_out) = {(0, 1, 0), (0, 2, 1), (1, 0, 2), (2, 3, 3)}"
    unfolding m2 by simp
  from r1 r2 r3 r4 ce r5 r6 r7 show ?thesis by (simp only: simp_thms)
qed

text \<open>
  Claim C8, as stated: for the graph built from \<open>row = [0,0,1,2]\<close>, \<open>col = [1,2,0,3]\<close>,
  \<^verbatim>\<open>get_adj(transpose=false, fmt="coo")\<close> is \<open>hstack(row, col)\<close>.  It is not: the
  transpose flag is flipped before the COO view is asked.
\<close>

theorem C8_counterexample:
  "\<not> (\<exists>g'. GetAdj (CreateFromCOO 3 4 [0, 0, 1, 2] [1, 2, 0, 3]) 0 False ''coo''
          = Inr ([HStack [0, 0, 1, 2] [1, 2, 0, 3]], g'))"
  by (simp add: GetAdj_def GetCOO_def CreateFromCOO_def COO_GetAdj_def HStack_def)

text \<open>
  Claim C8, amended: for every bipartite graph built from COO arrays \<open>(row, col)\<close>,
  \<^verbatim>\<open>get_adj(transpose=false, fmt="coo")\<close> returns \<open>hstack(col, row)\<close>, the destination
  ids first; \<open>hstack(row, col)\<close> is what \<^verbatim>\<open>transpose=true\<close> returns.  The graph is
  left unchanged.
\<close>

theorem C8_GetAdj_coo:
  "GetAdj (CreateFromCOO num_src num_dst rw cl) etype False ''coo''
     = Inr ([HStack cl rw], CreateFromCOO num_src num_dst rw cl) \<and>
   GetAdj (CreateFromCOO num_src num_dst rw cl) etype True ''coo''
     = Inr ([HStack rw cl], CreateFromCOO num_src num_dst rw cl)"
  by (simp add: GetAdj_def GetCOO_def CreateFromCOO_def COO_GetAdj_def)

section \<open>Properties of the heterograph\<close>

subsection \<open>Relabelling\<close>

lemma first_seen_union_snoc:
  "first_seen_union (xs @ [x]) =
     (if x \<in> set xs then first_seen_union xs else first_seen_union xs @ [x])"
  by (simp add: first_seen_union_def)

lemma set_first_seen_union: "set (first_seen_union xs) = set xs"
  by (simp add: first_seen_union_def)

lemma relabel_add_fsu: "relabel_add (first_seen_union ys) xs = first_seen_union (ys @ xs)"
proof (induction xs arbitrary: ys)
  case Nil
  show ?case by simp
next
  case (Cons x xs)
  have "relabel_add (first_seen_union ys) (x # xs) =
          relabel_add (first_seen_union (ys @ [x])) xs"
    by (simp add: first_seen_union_snoc set_first_seen_union)
  then show ?case using Cons.IH [of "ys @ [x]"] by simp
qed

lemma foldl_relabel_add_fsu:
  "foldl relabel_add (first_seen_union ys) xss = first_seen_union (ys @ concat xss)"
  by (induction xss arbitrary: ys) (simp_all add: relabel_add_fsu)

lemma foldl_relabel_add: "foldl relabel_add [] xss = first_seen_union (concat xss)"
  using foldl_relabel_add_fsu [of "[]" xss] by (simp add: first_seen_union_def)

lemma index_of_nth: "x \<in> set m \<Longrightarrow> index_of x m < length m \<and> m ! index_of x m = x"
  by (induction m) auto

lemma length_assign: "length (assign st r xs) = length st"
  by (simp add: assign_def)

lemma deref_assign:
  "fst r < length st \<Longrightarrow> deref (assign st r xs) r' = (if r' = r then xs else deref st r')"
  by (cases r; cases r') (auto simp: deref_def assign_def nth_list_update)

lemma fold_assign:
  "\<forall>r \<in> set refs. fst r < length st \<Longrightarrow>
   length (fold (\<lambda>r st'. assign st' r (f r)) refs st) = length st \<and>
   deref (fold (\<lambda>r st'. assign st' r (f r)) refs st) r' =
     (if r' \<in> set refs then f r' else deref st r')"
proof (induction refs arbitrary: st)
  case Nil
  show ?case by simp
next
  case (Cons r refs)
  have "\<forall>q \<in> set refs. fst q < length (assign st r (f r))"
    using Cons.prems by (simp add: length_assign)
  from Cons.IH [OF this] Cons.prems show ?case
    by (auto simp: length_assign deref_assign)
qed

lemma Relabel_inplace_props:
  assumes "\<forall>r \<in> set refs. fst r < length st" and "Relabel_inplace st refs = (m, st')"
  shows "m = first_seen_union (concat (map (deref st) refs)) \<and> length st' = length st \<and>
         deref st' r = (if r \<in> set refs then map (\<lambda>x. index_of x m) (deref st r) else deref st r)"
  using assms(2) fold_assign [OF assms(1), of "\<lambda>r. map (\<lambda>x. index_of x m) (deref st r)" r]
  by (auto simp: Relabel_inplace_def Let_def foldl_relabel_add)

lemma relabel_vtypes_props:
  assumes "relabel_vtypes bs st = (iv, st')"
    and "\<forall>i < length bs. \<forall>r \<in> set (bs ! i). fst r < length st \<and> key r = off + i"
  shows "length iv = length bs \<and> length st' = length st \<and>
         (\<forall>i < length bs. iv ! i = first_seen_union (concat (map (deref st) (bs ! i))) \<and>
            (\<forall>r \<in> set (bs ! i). deref st' r = map (\<lambda>x. index_of x (iv ! i)) (deref st r))) \<and>
         (\<forall>r. key r < off \<longrightarrow> deref st' r = deref st r)"
  using assms
proof (induction bs arbitrary: st iv st' off)
  case Nil
  then show ?case by simp
next
  case (Cons b bs)
  obtain m st1 where r1: "Relabel_inplace st b = (m, st1)" by (cases "Relabel_inplace st b")
  obtain ms st2 where r2: "relabel_vtypes bs st1 = (ms, st2)" by (cases "relabel_vtypes bs st1")
  from Cons.prems(1) r1 r2 have iv: "iv = m # ms" and st': "st' = st2" by simp_all
  have b_ok: "\<forall>r \<in> set b. fst r < length st \<and> key r = off"
    using Cons.prems(2) [rule_format, of 0] by simp
  then have b_ok': "\<forall>r \<in> set b. fst r < length st" by simp
  note R = Relabel_inplace_props [OF b_ok' r1]
  have len1: "length st1 = length st" using R by simp
  have rest_ok: "\<forall>i < length bs. \<forall>r \<in> set (bs ! i). fst r < length st1 \<and> key r = Suc off + i"
  proof (intro allI impI ballI)
    fix i r assume "i < length bs" "r \<in> set (bs ! i)"
    then show "fst r < length st1 \<and> key r = Suc off + i"
      using Cons.prems(2) [rule_format, of "Suc i" r] len1 by simp
  qed
  note IH = Cons.IH [OF r2 rest_ok]
  have IH4: "\<And>r. key r < Suc off \<Longrightarrow> deref st2 r = deref st1 r"
    using IH by blast
  have unch: "\<And>r. key r \<noteq> off \<Longrightarrow> deref st1 r = deref st r"
    using R b_ok by auto
  show ?case
  proof (intro conjI allI impI ballI)
    show "length iv = length (b # bs)" using IH iv by simp
    show "length st' = length st" using IH st' len1 by simp
  next
    fix i assume i: "i < length (b # bs)"
    show "iv ! i = first_seen_union (concat (map (deref st) ((b # bs) ! i)))"
    proof (cases i)
      case 0
      then show ?thesis using R iv by simp
    next
      case (Suc j)
      then have j: "j < length bs" using i by simp
      have meq: "map (deref st1) (bs ! j) = map (deref st) (bs ! j)"
        using rest_ok j unch by (intro map_cong) auto
      have "iv ! i = ms ! j" using Suc iv by simp
      also have "\<dots> = first_seen_union (concat (map (deref st1) (bs ! j)))"
        using IH j by simp
      also have "\<dots> = first_seen_union (concat (map (deref st) (bs ! j)))"
        by (simp only: meq)
      finally show ?thesis using Suc by simp
    qed
  next
    fix i r assume i: "i < length (b # bs)" and r: "r \<in> set ((b # bs) ! i)"
    show "deref st' r = map (\<lambda>x. index_of x (iv ! i)) (deref st r)"
    proof (cases i)
      case 0
      then have rb: "r \<in> set b" using r by simp
      then have "key r < Suc off" using b_ok by simp
      then have "deref st2 r = deref st1 r" by (rule IH4)
      then show ?thesis using R rb 0 iv st' by simp
    next
      case (Suc j)
      then have j: "j < length bs" and rj: "r \<in> set (bs ! j)" using i r by simp_all
      then have "key r = Suc off + j" using rest_ok by simp
      then have "deref st1 r = deref st r" using unch by simp
      then show ?thesis using IH j rj Suc iv st' by simp
    qed
  next
    fix r assume "key r < off"
    then have "deref st2 r = deref st1 r" "deref st1 r = deref st r"
      using IH4 [of r] unch [of r] by simp_all
    then show "deref st' r = deref st r" using st' by simp
  qed
qed

lemma FindEdges_edge_ends:
  assumes "FindEdges g etype ids = Inr ((s, d, ids'), g')"
  shows "\<exists>srcs dsts. edge_ends g = Some (srcs, dsts) \<and>
           (\<forall>e \<in> set ids. e < length srcs \<and> e < length dsts) \<and>
           s = map (\<lambda>e. srcs ! e) ids \<and> d = map (\<lambda>e. dsts ! e) ids"
  using assms
  unfolding FindEdges_def GetCOO_def COO_FindEdges_def IndexSelect_def edge_ends_def Let_def
  by (auto split: option.splits sum.splits if_splits)

lemma selected_ends_update:
  "t \<noteq> u \<Longrightarrow> selected_ends (rels[u := g]) eids t = selected_ends rels eids t"
  by (simp add: selected_ends_def)

lemma slice_edges_props:
  assumes "slice_edges mg eids es rels v2i se = Inr (rels', v2i', se')"
    and "distinct es" and "\<forall>t \<in> set es. t < length se"
  shows "length v2i' = length v2i \<and> length se' = length se \<and>
         (\<forall>v < length v2i. v2i' ! v = v2i ! v @ refs_of mg v es) \<and>
         (\<forall>t. se' ! t = (if t \<in> set es then selected_ends rels eids t else se ! t)) \<and>
         (\<forall>t \<in> set es. t < length (mg_edges mg) \<and> fst (mg_edges mg ! t) < length v2i \<and>
            snd (mg_edges mg ! t) < length v2i)"
  using assms
proof (induction es arbitrary: rels v2i se)
  case Nil
  then show ?case by (simp add: refs_of_def)
next
  case (Cons t es)
  from Cons.prems(1) obtain sv dv where fe: "mg_FindEdge mg t = Inr (sv, dv)"
    by (auto split: sum.splits)
  then have tlen: "t < length (mg_edges mg)" and ty: "mg_edges mg ! t = (sv, dv)"
    by (auto simp: mg_FindEdge_def split: if_splits)
  from Cons.prems(1) fe obtain s d ids g' where
    fd: "FindEdges (rels ! t) 0 (eids ! t) = Inr ((s, d, ids), g')"
    by (auto split: sum.splits)
  from Cons.prems(1) fe fd have bnd: "sv < length v2i" "dv < length v2i"
    by (auto split: if_splits)
  define v1 where "v1 = v2i[sv := v2i ! sv @ [(t, False)]]"
  define v2 where "v2 = v1[dv := v1 ! dv @ [(t, True)]]"
  from Cons.prems(1) fe fd bnd have rec:
    "slice_edges mg eids es (rels[t := g']) v2 (se[t := (s, d)]) = Inr (rels', v2i', se')"
    by (simp add: v1_def v2_def Let_def)
  have d: "distinct es" and tn: "t \<notin> set es" using Cons.prems(2) by simp_all
  have lt: "\<forall>u \<in> set es. u < length (se[t := (s, d)])" using Cons.prems(3) by simp
  note IH = Cons.IH [OF rec d lt]
  have len2: "length v2 = length v2i" by (simp add: v1_def v2_def)
  have v2nth: "\<And>v. v < length v2i \<Longrightarrow>
      v2 ! v = v2i ! v @ (if sv = v then [(t, False)] else []) @ (if dv = v then [(t, True)] else [])"
    using bnd by (auto simp: v1_def v2_def nth_list_update)
  have sel: "selected_ends rels eids t = (s, d)"
    using FindEdges_edge_ends [OF fd] by (auto simp: selected_ends_def)
  have tse: "t < length se" using Cons.prems(3) by simp
  show ?case
  proof (intro conjI allI impI ballI)
    show "length v2i' = length v2i" using IH len2 by simp
    show "length se' = length se" using IH by simp
  next
    fix v assume v: "v < length v2i"
    then have "v2i' ! v = v2 ! v @ refs_of mg v es" using IH len2 by simp
    then show "v2i' ! v = v2i ! v @ refs_of mg v (t # es)"
      using v2nth [OF v] ty by (simp add: refs_of_def)
  next
    fix u
    have "se' ! u = (if u \<in> set es then selected_ends (rels[t := g']) eids u
                     else se[t := (s, d)] ! u)"
      using IH by blast
    moreover have "u \<in> set es \<Longrightarrow>
        selected_ends (rels[t := g']) eids u = selected_ends rels eids u"
      using tn by (intro selected_ends_update) auto
    ultimately show "se' ! u = (if u \<in> set (t # es) then selected_ends rels eids u else se ! u)"
      using tn sel tse by (auto simp: nth_list_update)
  next
    fix u assume u: "u \<in> set (t # es)"
    show "u < length (mg_edges mg)" using u tlen IH by auto
    show "fst (mg_edges mg ! u) < length v2i" using u ty bnd IH len2 by auto
    show "snd (mg_edges mg ! u) < length v2i" using u ty bnd IH len2 by auto
  qed
qed

lemma slice_edges_in_range:
  assumes "slice_edges mg eids es rels v2i se = Inr (rels', v2i', se')"
    and "distinct es"
  shows "\<forall>t \<in> set es. \<exists>srcs dsts. edge_ends (rels ! t) = Some (srcs, dsts) \<and>
           (\<forall>e \<in> set (eids ! t). e < length srcs \<and> e < length dsts)"
  using assms
proof (induction es arbitrary: rels v2i se)
  case Nil
  then show ?case by simp
next
  case (Cons t es)
  from Cons.prems(1) obtain sv dv where fe: "mg_FindEdge mg t = Inr (sv, dv)"
    by (auto split: sum.splits)
  from Cons.prems(1) fe obtain s d ids g' where
    fd: "FindEdges (rels ! t) 0 (eids ! t) = Inr ((s, d, ids), g')"
    by (auto split: sum.splits)
  from Cons.prems(1) fe fd obtain v2 where rec:
    "slice_edges mg eids es (rels[t := g']) v2 (se[t := (s, d)]) = Inr (rels', v2i', se')"
    by (auto simp: Let_def split: if_splits)
  have d: "distinct es" and tn: "t \<notin> set es" using Cons.prems(2) by simp_all
  have here: "\<exists>srcs dsts. edge_ends (rels ! t) = Some (srcs, dsts) \<and>
           (\<forall>e \<in> set (eids ! t). e < length srcs \<and> e < length dsts)"
    using FindEdges_edge_ends [OF fd] by blast
  have "\<forall>u \<in> set es. \<exists>srcs dsts. edge_ends (rels ! u) = Some (srcs, dsts) \<and>
           (\<forall>e \<in> set (eids ! u). e < length srcs \<and> e < length dsts)"
  proof
    fix u assume u: "u \<in> set es"
    then have "u \<noteq> t" using tn by auto
    then have "rels[t := g'] ! u = rels ! u" by simp
    then show "\<exists>srcs dsts. edge_ends (rels ! u) = Some (srcs, dsts) \<and>
           (\<forall>e \<in> set (eids ! u). e < length srcs \<and> e < length dsts)"
      using Cons.IH [OF rec d] u by auto
  qed
  with here show ?case by simp
qed

lemma build_subrels_props:
  assumes "build_subrels mg iv se es = Inr rs"
  shows "rs = map (\<lambda>t. CreateFromCOO (length (iv ! fst (mg_edges mg ! t)))
                        (length (iv ! snd (mg_edges mg ! t))) (fst (se ! t)) (snd (se ! t))) es"
  using assms
proof (induction es arbitrary: rs)
  case Nil
  then show ?case by simp
next
  case (Cons t es)
  then show ?case
    by (auto simp: mg_FindEdge_def split: sum.splits if_splits prod.splits)
qed

lemma set_refs_of:
  "r \<in> set (refs_of mg v es) \<longleftrightarrow>
     fst r \<in> set es \<and> (if snd r then snd (mg_edges mg ! fst r) else fst (mg_edges mg ! fst r)) = v"
  by (cases r) (auto simp: refs_of_def)

lemma concat_deref_refs_of:
  "concat (map (deref se) (refs_of mg v es)) =
     concat (map (\<lambda>t. (if fst (mg_edges mg ! t) = v then fst (se ! t) else []) @
                      (if snd (mg_edges mg ! t) = v then snd (se ! t) else [])) es)"
  by (induction es) (auto simp: refs_of_def deref_def)

lemma EdgeSubgraphNoPreserveNodes_general:
  assumes ok: "EdgeSubgraphNoPreserveNodes hg eids = Inr (sg, hg')"
  shows "length (induced_vertices sg) = NumVertexTypes hg \<and>
     (\<forall>v < NumVertexTypes hg.
        induced_vertices sg ! v =
          first_seen_union (incident_ids (meta_graph hg) (relation_graphs hg) eids v)) \<and>
     length (relation_graphs (graph sg)) = NumEdgeTypes hg \<and>
     (\<forall>t < NumEdgeTypes hg.
        fst (mg_edges (meta_graph hg) ! t) < NumVertexTypes hg \<and>
        snd (mg_edges (meta_graph hg) ! t) < NumVertexTypes hg \<and>
        relation_graphs (graph sg) ! t =
          CreateFromCOO
            (length (induced_vertices sg ! fst (mg_edges (meta_graph hg) ! t)))
            (length (induced_vertices sg ! snd (mg_edges (meta_graph hg) ! t)))
            (map (\<lambda>x. index_of x (induced_vertices sg ! fst (mg_edges (meta_graph hg) ! t)))
               (fst (selected_ends (relation_graphs hg) eids t)))
            (map (\<lambda>x. index_of x (induced_vertices sg ! snd (mg_edges (meta_graph hg) ! t)))
               (snd (selected_ends (relation_graphs hg) eids t))) \<and>
        (\<forall>x \<in> set (fst (selected_ends (relation_graphs hg) eids t)).
           index_of x (induced_vertices sg ! fst (mg_edges (meta_graph hg) ! t))
             < length (induced_vertices sg ! fst (mg_edges (meta_graph hg) ! t)) \<and>
           induced_vertices sg ! fst (mg_edges (meta_graph hg) ! t) !
             index_of x (induced_vertices sg ! fst (mg_edges (meta_graph hg) ! t)) = x) \<and>
        (\<forall>x \<in> set (snd (selected_ends (relation_graphs hg) eids t)).
           index_of x (induced_vertices sg ! snd (mg_edges (meta_graph hg) ! t))
             < length (induced_vertices sg ! snd (mg_edges (meta_graph hg) ! t)) \<and>
           induced_vertices sg ! snd (mg_edges (meta_graph hg) ! t) !
             index_of x (induced_vertices sg ! snd (mg_edges (meta_graph hg) ! t)) = x))"
proof -
  define mg where "mg = meta_graph hg"
  define T where "T = length (mg_edges mg)"
  define V where "V = mg_num_vertices mg"
  define rels0 where "rels0 = relation_graphs hg"
  have NT: "NumEdgeTypes hg = T" "NumVertexTypes hg = V"
    by (simp_all add: NumEdgeTypes_def NumVertexTypes_def mg_NumEdges_def T_def V_def mg_def)
  from ok obtain rels v2i se where
    sl: "slice_edges mg eids [0..<T] rels0 (replicate V []) (replicate T ([], [])) =
           Inr (rels, v2i, se)"
    unfolding EdgeSubgraphNoPreserveNodes_def NT mg_def [symmetric] rels0_def [symmetric]
    by (auto split: if_splits sum.splits)
  obtain iv se' where rl: "relabel_vtypes v2i se = (iv, se')"
    by (cases "relabel_vtypes v2i se")
  from ok sl rl obtain subrels where bs: "build_subrels mg iv se' [0..<T] = Inr subrels"
    unfolding EdgeSubgraphNoPreserveNodes_def NT mg_def [symmetric] rels0_def [symmetric]
    by (auto split: if_splits sum.splits)
  from ok sl rl bs obtain sg0 where hn: "HeteroGraph_new mg subrels = Inr sg0"
    and sg: "sg = \<lparr> graph = sg0, induced_vertices = iv, induced_edges = eids \<rparr>"
    unfolding EdgeSubgraphNoPreserveNodes_def NT mg_def [symmetric] rels0_def [symmetric]
    by (auto split: if_splits sum.splits)
  have S: "length v2i = V \<and> length se = T \<and>
         (\<forall>v < V. v2i ! v = refs_of mg v [0..<T]) \<and>
         (\<forall>t. se ! t = (if t \<in> set [0..<T] then selected_ends rels0 eids t
                         else replicate T ([], []) ! t)) \<and>
         (\<forall>t \<in> set [0..<T]. t < length (mg_edges mg) \<and> fst (mg_edges mg ! t) < V \<and>
            snd (mg_edges mg ! t) < V)"
    using slice_edges_props [OF sl] by simp
  then have lenv: "length v2i = V" and lense: "length se = T"
    and bucket: "\<And>v. v < V \<Longrightarrow> v2i ! v = refs_of mg v [0..<T]"
    and sent: "\<And>t. t < T \<Longrightarrow> se ! t = selected_ends rels0 eids t"
    and tyb: "\<And>t. t < T \<Longrightarrow> fst (mg_edges mg ! t) < V \<and> snd (mg_edges mg ! t) < V"
    by simp_all
  define key :: "array_ref \<Rightarrow> nat" where
    "key r = (if snd r then snd (mg_edges mg ! fst r) else fst (mg_edges mg ! fst r))" for r
  have keys: "\<forall>i < length v2i. \<forall>r \<in> set (v2i ! i). fst r < length se \<and> key r = 0 + i"
    using bucket lenv lense by (auto simp: set_refs_of key_def)
  note R = relabel_vtypes_props [OF rl keys]
  then have leniv: "length iv = V"
    and ivv: "\<And>v. v < V \<Longrightarrow> iv ! v = first_seen_union (concat (map (deref se) (v2i ! v)))"
    and der: "\<And>v r. v < V \<Longrightarrow> r \<in> set (v2i ! v) \<Longrightarrow>
                deref se' r = map (\<lambda>x. index_of x (iv ! v)) (deref se r)"
    using lenv by simp_all
  have inc: "\<And>v. v < V \<Longrightarrow> iv ! v = first_seen_union (incident_ids mg rels0 eids v)"
  proof -
    fix v assume v: "v < V"
    have "concat (map (deref se) (v2i ! v)) = incident_ids mg rels0 eids v"
      unfolding bucket [OF v] concat_deref_refs_of incident_ids_def T_def [symmetric]
      by (rule arg_cong [where f = concat], rule map_cong) (simp_all add: sent)
    then show "iv ! v = first_seen_union (incident_ids mg rels0 eids v)"
      using ivv [OF v] by simp
  qed
  have subr: "subrels = map (\<lambda>t. CreateFromCOO (length (iv ! fst (mg_edges mg ! t)))
                        (length (iv ! snd (mg_edges mg ! t))) (fst (se' ! t)) (snd (se' ! t))) [0..<T]"
    using build_subrels_props [OF bs] .
  have gr: "relation_graphs sg0 = subrels"
    using hn by (auto simp: HeteroGraph_new_def split: if_splits sum.splits)
  have rel_t: "fst (mg_edges mg ! t) < V \<and> snd (mg_edges mg ! t) < V \<and>
      relation_graphs sg0 ! t =
        CreateFromCOO (length (iv ! fst (mg_edges mg ! t))) (length (iv ! snd (mg_edges mg ! t)))
          (map (\<lambda>x. index_of x (iv ! fst (mg_edges mg ! t))) (fst (selected_ends rels0 eids t)))
          (map (\<lambda>x. index_of x (iv ! snd (mg_edges mg ! t))) (snd (selected_ends rels0 eids t))) \<and>
      (\<forall>x \<in> set (fst (selected_ends rels0 eids t)).
         index_of x (iv ! fst (mg_edges mg ! t)) < length (iv ! fst (mg_edges mg ! t)) \<and>
         iv ! fst (mg_edges mg ! t) ! index_of x (iv ! fst (mg_edges mg ! t)) = x) \<and>
      (\<forall>x \<in> set (snd (selected_ends rels0 eids t)).
         index_of x (iv ! snd (mg_edges mg ! t)) < length (iv ! snd (mg_edges mg ! t)) \<and>
         iv ! snd (mg_edges mg ! t) ! index_of x (iv ! snd (mg_edges mg ! t)) = x)"
    if t: "t < T" for t
  proof -
    let ?sv = "fst (mg_edges mg ! t)" and ?dv = "snd (mg_edges mg ! t)"
    have sv: "?sv < V" and dv: "?dv < V" using tyb [OF t] by simp_all
    have rs: "(t, False) \<in> set (v2i ! ?sv)" and rd: "(t, True) \<in> set (v2i ! ?dv)"
      using t by (simp_all add: bucket [OF sv] bucket [OF dv] set_refs_of)
    have "fst (se' ! t) = deref se' (t, False)" "snd (se' ! t) = deref se' (t, True)"
      by (simp_all add: deref_def)
    then have fs: "fst (se' ! t) = map (\<lambda>x. index_of x (iv ! ?sv)) (fst (selected_ends rels0 eids t))"
      and sn: "snd (se' ! t) = map (\<lambda>x. index_of x (iv ! ?dv)) (snd (selected_ends rels0 eids t))"
      using der [OF sv rs] der [OF dv rd] sent [OF t] by (simp_all add: deref_def)
    have ins: "set (fst (selected_ends rels0 eids t)) \<subseteq> set (iv ! ?sv)"
      using t by (auto simp: inc [OF sv] set_first_seen_union incident_ids_def T_def)
    have ind: "set (snd (selected_ends rels0 eids t)) \<subseteq> set (iv ! ?dv)"
      using t by (auto simp: inc [OF dv] set_first_seen_union incident_ids_def T_def)
    show ?thesis
      using sv dv fs sn ins ind t by (auto simp: gr subr index_of_nth)
  qed
  have iv_sg: "induced_vertices sg = iv"
    and g_sg: "relation_graphs (graph sg) = relation_graphs sg0"
    by (simp_all add: sg)
  show ?thesis
    unfolding NT mg_def [symmetric] rels0_def [symmetric] iv_sg g_sg
  proof (intro conjI)
    show "length iv = V" by (rule leniv)
    show "length (relation_graphs sg0) = T" by (simp add: gr subr)
    show "\<forall>v<V. iv ! v = first_seen_union (incident_ids mg rels0 eids v)"
      using inc by blast
  qed (use rel_t in blast)
qed

lemma EdgeSubgraphNoPreserveNodes_in_range:
  assumes "EdgeSubgraphNoPreserveNodes hg eids = Inr (sg, hg')"
  shows "\<forall>t < NumEdgeTypes hg.
           \<exists>srcs dsts. edge_ends (relation_graphs hg ! t) = Some (srcs, dsts) \<and>
             (\<forall>e \<in> set (eids ! t). e < length srcs \<and> e < length dsts)"
proof -
  from assms obtain rels v2i se where
    sl: "slice_edges (meta_graph hg) eids [0..<NumEdgeTypes hg] (relation_graphs hg)
           (replicate (NumVertexTypes hg) []) (replicate (NumEdgeTypes hg) ([], [])) =
           Inr (rels, v2i, se)"
    unfolding EdgeSubgraphNoPreserveNodes_def
    by (auto split: if_splits sum.splits)
  from slice_edges_in_range [OF sl] show ?thesis by simp
qed

text \<open>
  Claim C1: for every heterograph \<^verbatim>\<open>edge_subgraph\<close> call with
  \<^verbatim>\<open>preserve_nodes=false\<close> that returns, \<^verbatim>\<open>induced_vertices[v]\<close> is, for each vertex
  type \<open>v\<close>, the first-seen-order union of the source arrays of the relations with
  source type \<open>v\<close> and the destination arrays of the relations with destination
  type \<open>v\<close>, restricted to the selected edge ids: the array of a relation holds the
  endpoint of edge \<open>e\<close> for every selected id \<open>e\<close>, in the order of the ids
  (\<open>selected_ends\<close>, \<open>incident_ids\<close>).  Every relation of the result is built over
  these arrays: its vertex counts are their lengths, and each endpoint of a
  selected edge is replaced by its position in the array of its type, so that
  relations sharing a vertex type share one id space.  Every selected id is the id
  of an edge of its relation.  For the meta-graph \<open>A \<rightarrow> B \<rightarrow> C\<close> with
  \<open>A \<rightarrow> B: (0,0), (0,1)\<close>, \<open>B \<rightarrow> C: (1,0), (1,1)\<close> and \<open>eids = [[0],[0]]\<close> the induced
  vertices of \<open>B\<close> are \<open>[0,1]\<close>, the resulting \<open>A \<rightarrow> B\<close> has the single edge \<open>(0,0)\<close> and
  \<open>B \<rightarrow> C\<close> the single edge \<open>(1,0)\<close>.
\<close>

theorem C1_edge_subgraph_common_id_space:
  assumes "EdgeSubgraphNoPreserveNodes hg eids = Inr (sg, hg')"
  shows "(length (induced_vertices sg) = NumVertexTypes hg \<and>
     (\<forall>v < NumVertexTypes hg.
        induced_vertices sg ! v =
          first_seen_union (incident_ids (meta_graph hg) (relation_graphs hg) eids v)) \<and>
     length (relation_graphs (graph sg)) = NumEdgeTypes hg \<and>
     (\<forall>t < NumEdgeTypes hg.
        fst (mg_edges (meta_graph hg) ! t) < NumVertexTypes hg \<and>
        snd (mg_edges (meta_graph hg) ! t) < NumVertexTypes hg \<and>
        relation_graphs (graph sg) ! t =
          CreateFromCOO
            (length (induced_vertices sg ! fst (mg_edges (meta_graph hg) ! t)))
            (length (induced_vertices sg ! snd (mg_edges (meta_graph hg) ! t)))
            (map (\<lambda>x. index_of x (induced_vertices sg ! fst (mg_edges (meta_graph hg) ! t)))
               (fst (selected_ends (relation_graphs hg) eids t)))
            (map (\<lambda>x. index_of x (induced_vertices sg ! snd (mg_edges (meta_graph hg) ! t)))
               (snd (selected_ends (relation_graphs hg) eids t))) \<and>
        (\<forall>x \<in> set (fst (selected_ends (relation_graphs hg) eids t)).
           index_of x (induced_vertices sg ! fst (mg_edges (meta_graph hg) ! t))
             < length (induced_vertices sg ! fst (mg_edges (meta_graph hg) ! t)) \<and>
           induced_vertices sg ! fst (mg_edges (meta_graph hg) ! t) !
             index_of x (induced_vertices sg ! fst (mg_edges (meta_graph hg) ! t)) = x) \<and>
        (\<forall>x \<in> set (snd (selected_ends (relation_graphs hg) eids t)).
           index_of x (induced_vertices sg ! snd (mg_edges (meta_graph hg) ! t))
             < length (induced_vertices sg ! snd (mg_edges (meta_graph hg) ! t)) \<and>
           induced_vertices sg ! snd (mg_edges (meta_graph hg) ! t) !
             index_of x (induced_vertices sg ! snd (mg_edges (meta_graph hg) ! t)) = x))) \<and>
    (\<forall>t < NumEdgeTypes hg.
       \<exists>srcs dsts. edge_ends (relation_graphs hg ! t) = Some (srcs, dsts) \<and>
         (\<forall>e \<in> set (eids ! t). e < length srcs \<and> e < length dsts)) \<and>
    EdgeSubgraphNoPreserveNodes hg_ABC [[0], [0]] =
      Inr (\<lparr> graph = \<lparr> meta_graph = mg_ABC,
                        relation_graphs = [CreateFromCOO 1 2 [0] [0], CreateFromCOO 2 1 [1] [0]],
                        num_verts_per_type = [1, 2, - 1] \<rparr>,
             induced_vertices = [[0], [0, 1], [0]],
             induced_edges = [[0], [0]] \<rparr>, hg_ABC)"
proof -
  have e: "EdgeSubgraphNoPreserveNodes hg_ABC [[0], [0]] =
      Inr (\<lparr> graph = \<lparr> meta_graph = mg_ABC,
                        relation_graphs = [CreateFromCOO 1 2 [0] [0], CreateFromCOO 2 1 [1] [0]],
                        num_verts_per_type = [1, 2, - 1] \<rparr>,
             induced_vertices = [[0], [0, 1], [0]],
             induced_edges = [[0], [0]] \<rparr>, hg_ABC)"
    by code_simp
  show ?thesis
    by (rule conjI [OF EdgeSubgraphNoPreserveNodes_general [OF assms]
                       conjI [OF EdgeSubgraphNoPreserveNodes_in_range [OF assms] e]])
qed

text \<open>The claim at the example, for the selection \<open>eids = [[1,0],[1]]\<close>, which is no
  prefix of the edge ids.  The selected edges are \<open>(0,1), (0,0)\<close> of \<open>A \<rightarrow> B\<close> and \<open>(1,1)\<close>
  of \<open>B \<rightarrow> C\<close>.  The endpoints of type \<open>B\<close> are \<open>[1,0]\<close> from \<open>A \<rightarrow> B\<close> and \<open>[1]\<close> from
  \<open>B \<rightarrow> C\<close>, the induced vertices of \<open>B\<close> are \<open>[1,0]\<close>, and both relations of the
  result name the vertex \<open>1\<close> of \<open>B\<close> by its position \<open>0\<close>.\<close>

theorem C1_edge_subgraph_common_id_space_witness:
  "\<exists>sg. EdgeSubgraphNoPreserveNodes hg_ABC [[1, 0], [1]] = Inr (sg, hg_ABC) \<and>
     selected_ends [rel_AB, rel_BC] [[1, 0], [1]] 0 = ([0, 0], [1, 0]) \<and>
     selected_ends [rel_AB, rel_BC] [[1, 0], [1]] 1 = ([1], [1]) \<and>
     incident_ids mg_ABC [rel_AB, rel_BC] [[1, 0], [1]] 1 = [1, 0, 1] \<and>
     induced_vertices sg ! 1 = [1, 0] \<and>
     relation_graphs (graph sg) ! 0 = CreateFromCOO 1 2 [0, 0] [0, 1] \<and>
     relation_graphs (graph sg) ! 1 = CreateFromCOO 2 1 [0] [0]"
proof -
  define sg where "sg = \<lparr> graph = \<lparr> meta_graph = mg_ABC,
                        relation_graphs = [CreateFromCOO 1 2 [0, 0] [0, 1],
                                           CreateFromCOO 2 1 [0] [0]],
                        num_verts_per_type = [1, 2, - 1] \<rparr>,
             induced_vertices = [[0], [1, 0], [1]],
             induced_edges = [[1, 0], [1]] \<rparr>"
  have run: "EdgeSubgraphNoPreserveNodes hg_ABC [[1, 0], [1]] = Inr (sg, hg_ABC)"
    unfolding sg_def by code_simp
  have nv: "1 < NumVertexTypes hg_ABC" by code_simp
  have mg: "meta_graph hg_ABC = mg_ABC" "relation_graphs hg_ABC = [rel_AB, rel_BC]"
    by (simp_all add: hg_ABC_def)
  have s0: "selected_ends [rel_AB, rel_BC] [[1, 0], [1]] 0 = ([0, 0], [1, 0])" by code_simp
  have s1: "selected_ends [rel_AB, rel_BC] [[1, 0], [1]] 1 = ([1], [1])" by code_simp
  have ids: "incident_ids mg_ABC [rel_AB, rel_BC] [[1, 0], [1]] 1 = [1, 0, 1]" by code_simp
  have fsu: "first_seen_union (incident_ids mg_ABC [rel_AB, rel_BC] [[1, 0], [1]] 1) = [1, 0]"
    by code_simp
  from C1_edge_subgraph_common_id_space [OF run]
  have "\<forall>v < NumVertexTypes hg_ABC. induced_vertices sg ! v =
          first_seen_union
            (incident_ids (meta_graph hg_ABC) (relation_graphs hg_ABC) [[1, 0], [1]] v)"
    by blast
  then have "induced_vertices sg ! 1 =
          first_seen_union
            (incident_ids (meta_graph hg_ABC) (relation_graphs hg_ABC) [[1, 0], [1]] 1)"
    using nv by blast
  then have b: "induced_vertices sg ! 1 = [1, 0]" by (simp only: mg fsu)
  have "relation_graphs (graph sg) ! 0 = CreateFromCOO 1 2 [0, 0] [0, 1]"
       "relation_graphs (graph sg) ! 1 = CreateFromCOO 2 1 [0] [0]"
    by (simp_all add: sg_def)
  with run s0 s1 ids b show ?thesis by (intro exI [of _ sg]) (simp only: simp_thms)
qed


text \<open>
  Claim C2: in a successfully constructed heterograph, \<^verbatim>\<open>num_vertices(v)\<close> equals the
  source count of every relation with source type \<open>v\<close> and the destination count of
  every relation with destination type \<open>v\<close>.  The constructor compares the source
  counts only.  With a relation \<open>A \<rightarrow> B\<close> that has five destination vertices and a
  relation \<open>B \<rightarrow> C\<close> that has two source and two destination vertices, construction
  succeeds; type \<open>B\<close> gets two vertices although \<open>A \<rightarrow> B\<close> reports five, and type \<open>C\<close>,
  which has no outgoing relation, keeps the initial \<open>-1\<close>.
\<close>

theorem C2_divergence:
  "\<exists>hg. HeteroGraph_new mg_ABC [rel_AB5, rel_BC] = Inr hg \<and>
        HeteroGraph_NumVertices hg 1 = 2 \<and> rel_dst_count rel_AB5 = Inr 5 \<and>
        HeteroGraph_NumVertices hg 2 = - 1 \<and> rel_dst_count rel_BC = Inr 2"
proof -
  have "HeteroGraph_new mg_ABC [rel_AB5, rel_BC] =
          Inr \<lparr> meta_graph = mg_ABC, relation_graphs = [rel_AB5, rel_BC],
                num_verts_per_type = [1, 2, - 1] \<rparr>"
    by code_simp
  moreover have "rel_dst_count rel_AB5 = Inr 5" "rel_dst_count rel_BC = Inr 2"
    by code_simp+
  ultimately show ?thesis by (simp add: HeteroGraph_NumVertices_def)
qed

section \<open>Properties of the samplers\<close>

subsection \<open>Uniform sampling of one neighbor list\<close>

lemma strictly_increasing_sorted_wrt: "strictly_increasing xs \<longleftrightarrow> sorted_wrt (<) xs"
proof (induction xs rule: strictly_increasing.induct)
  case (3 x y ys)
  have "x < y \<Longrightarrow> \<forall>z \<in> set ys. y < z \<Longrightarrow> \<forall>z \<in> set ys. x < z"
    by (meson less_trans)
  with 3 show ?case by auto
qed simp_all

lemma strictly_increasing_iff: "strictly_increasing xs \<longleftrightarrow> sorted xs \<and> distinct xs"
  by (simp add: strictly_increasing_sorted_wrt strict_sorted_iff)

lemma read_all_in_range:
  "\<forall>i \<in> set is. i < length p \<Longrightarrow> read_all p is = Inr (map (\<lambda>i. p ! i) is)"
  by (induction "is") (simp_all add: read_at_def)

lemma read_all_Inr:
  "read_all p is = Inr xs \<Longrightarrow> (\<forall>i \<in> set is. i < length p) \<and> xs = map (\<lambda>i. p ! i) is"
  by (induction "is" arbitrary: xs) (auto simp: read_at_def split: sum.splits if_splits)

lemma read_all_Inl: "read_all p is = Inl e \<Longrightarrow> e = OutOfBounds \<and> (\<exists>i \<in> set is. \<not> i < length p)"
  by (induction "is") (auto simp: read_at_def split: sum.splits if_splits)

lemma RandomSample_loop_props:
  assumes "RandomSample_loop n num init rs = Some (S, rs')"
    and "distinct init" and "\<forall>x \<in> set init. x < n" and "0 < n"
  shows "distinct S \<and> (\<forall>x \<in> set S. x < n) \<and> num \<le> length S \<and>
         (length init \<le> num \<longrightarrow> length S = num)"
  using assms
proof (induction rs arbitrary: init)
  case Nil
  then show ?case by (auto split: if_splits)
next
  case (Cons r rs)
  show ?case
  proof (cases "length init < num")
    case False
    with Cons.prems show ?thesis by auto
  next
    case True
    let ?init = "if r mod n \<in> set init then init else init @ [r mod n]"
    have rec: "RandomSample_loop n num ?init rs = Some (S, rs')"
      using Cons.prems(1) True by simp
    have "distinct ?init" "\<forall>x \<in> set ?init. x < n"
      using Cons.prems by auto
    from Cons.IH [OF rec this \<open>0 < n\<close>] True show ?thesis by (auto split: if_splits)
  qed
qed

lemma RandomSample_loop_returns:
  assumes "num \<le> card (set init \<union> (\<lambda>r. r mod n) ` set rs)"
  shows "\<exists>S rs'. RandomSample_loop n num init rs = Some (S, rs')"
  using assms
proof (induction rs arbitrary: init)
  case Nil
  have "card (set init) \<le> length init" by (rule card_length)
  with Nil show ?case by simp
next
  case (Cons r rs)
  show ?case
  proof (cases "length init < num")
    case False
    then show ?thesis by simp
  next
    case True
    let ?init = "if r mod n \<in> set init then init else init @ [r mod n]"
    have "set ?init \<union> (\<lambda>r. r mod n) ` set rs = set init \<union> (\<lambda>r. r mod n) ` set (r # rs)"
      by auto
    with Cons.prems have "num \<le> card (set ?init \<union> (\<lambda>r. r mod n) ` set rs)" by simp
    from Cons.IH [OF this] True show ?thesis by simp
  qed
qed

lemma NegateArray_loop_eq:
  "strictly_increasing nz \<Longrightarrow> \<forall>z \<in> set nz. i \<le> z \<Longrightarrow>
   NegateArray_loop nz i n out = out @ filter (\<lambda>j. j \<notin> set nz) [i..<n]"
proof (induction nz i n out rule: NegateArray_loop.induct)
  case (1 nz i n out)
  show ?case
  proof (cases "i < n")
    case False
    then show ?thesis by (subst NegateArray_loop.simps) simp
  next
    case True
    note lt = this
    show ?thesis
    proof (cases nz)
      case Nil
      have "NegateArray_loop [] i n out = NegateArray_loop [] (Suc i) n (out @ [i])"
        using lt by (subst NegateArray_loop.simps) simp
      also have "\<dots> = (out @ [i]) @ filter (\<lambda>j. j \<notin> set []) [Suc i..<n]"
        using "1.IH"(1) [OF lt Nil] by simp
      finally show ?thesis using lt Nil by (simp add: upt_conv_Cons)
    next
      case (Cons z zs)
      have zs: "strictly_increasing zs" "\<forall>y \<in> set zs. z < y"
        using "1.prems"(1) Cons by (auto simp: strictly_increasing_sorted_wrt)
      then have zs': "\<forall>y \<in> set zs. Suc z \<le> y" by auto
      show ?thesis
      proof (cases "z = i")
        case True
        have "NegateArray_loop nz i n out = NegateArray_loop zs (Suc i) n out"
          using lt Cons True by (subst NegateArray_loop.simps) simp
        also have "\<dots> = out @ filter (\<lambda>j. j \<notin> set zs) [Suc i..<n]"
          using "1.IH"(2) [OF lt Cons True zs(1)] zs' True by simp
        also have "filter (\<lambda>j. j \<notin> set zs) [Suc i..<n] = filter (\<lambda>j. j \<notin> set nz) [Suc i..<n]"
          using Cons True by (intro filter_cong) auto
        finally show ?thesis using lt Cons True by (simp add: upt_conv_Cons)
      next
        case False
        then have iz: "i < z" using "1.prems"(2) Cons by auto
        have "NegateArray_loop nz i n out = NegateArray_loop (z # zs) (Suc i) n (out @ [i])"
          using lt Cons False by (subst NegateArray_loop.simps) simp
        also have "\<dots> = (out @ [i]) @ filter (\<lambda>j. j \<notin> set (z # zs)) [Suc i..<n]"
          using "1.IH"(3) [OF lt Cons False] "1.prems" Cons iz zs by force
        finally show ?thesis using lt Cons iz zs by (auto simp: upt_conv_Cons)
      qed
    qed
  qed
qed

lemma length_filter_complement:
  assumes "distinct nz" and "\<forall>z \<in> set nz. z < n"
  shows "length (filter (\<lambda>j. j \<notin> set nz) [0..<n]) = n - length nz"
proof -
  have "length (filter (\<lambda>j. j \<in> set nz) [0..<n]) = card {j. j < n \<and> j \<in> set nz}"
    by (simp add: length_filter_conv_card cong: conj_cong)
  also have "{j. j < n \<and> j \<in> set nz} = set nz" using assms(2) by auto
  also have "card (set nz) = length nz" using assms(1) by (rule distinct_card)
  finally have a: "length (filter (\<lambda>j. j \<in> set nz) [0..<n]) = length nz" .
  have "length (filter (\<lambda>j. j \<in> set nz) [0..<n]) + length (filter (\<lambda>j. j \<notin> set nz) [0..<n])
          = length [0..<n]"
    using sum_length_filter_compl [of "\<lambda>j. j \<in> set nz" "[0..<n]"] by simp
  with a show ?thesis by simp
qed

lemma take_eq_map_nth: "n \<le> length xs \<Longrightarrow> take n xs = map (\<lambda>i. xs ! i) [0..<n]"
  by (simp add: list_eq_iff_nth_eq)

lemma strictly_increasing_upt: "strictly_increasing [0..<n]"
  by (simp add: strictly_increasing_iff)

lemma sample_sorted_idxs_props:
  assumes "k < ver_len"
  shows "(\<forall>idxs rs'. sample_sorted_idxs ver_len k rs = Inr (idxs, rs') \<longrightarrow>
            length idxs = k \<and> strictly_increasing idxs \<and> (\<forall>p \<in> set idxs. p < ver_len)) \<and>
         (\<forall>e. sample_sorted_idxs ver_len k rs = Inl e \<longrightarrow> e = DrawsExhausted) \<and>
         (min k (ver_len - k) \<le> card ((\<lambda>r. r mod ver_len) ` set rs) \<longrightarrow>
            (\<exists>res. sample_sorted_idxs ver_len k rs = Inr res))"
proof (cases "ver_len > k * 2")
  case True
  have pos: "0 < ver_len" using assms by simp
  have m: "min k (ver_len - k) = k" using True by simp
  show ?thesis
  proof (cases "RandomSample ver_len k rs")
    case None
    have "\<not> k \<le> card ((\<lambda>r. r mod ver_len) ` set rs)"
      using RandomSample_loop_returns [of k "[]" ver_len rs] None
      by (auto simp: RandomSample_def)
    then show ?thesis using True None m by (simp add: sample_sorted_idxs_def)
  next
    case (Some a)
    obtain S rs1 where a: "a = (S, rs1)" by (cases a)
    have "distinct S \<and> (\<forall>x \<in> set S. x < ver_len) \<and> k \<le> length S \<and> length S = k"
      using RandomSample_loop_props [of ver_len k "[]" rs S rs1] Some a pos
      by (simp add: RandomSample_def)
    then show ?thesis using True Some a
      by (simp add: sample_sorted_idxs_def strictly_increasing_iff)
  qed
next
  case False
  have pos: "0 < ver_len" using assms by simp
  have m: "min k (ver_len - k) = ver_len - k" using False by simp
  show ?thesis
  proof (cases "RandomSample ver_len (ver_len - k) rs")
    case None
    have "\<not> ver_len - k \<le> card ((\<lambda>r. r mod ver_len) ` set rs)"
      using RandomSample_loop_returns [of "ver_len - k" "[]" ver_len rs] None
      by (auto simp: RandomSample_def)
    then show ?thesis using False None m by (simp add: sample_sorted_idxs_def)
  next
    case (Some a)
    obtain S rs1 where a: "a = (S, rs1)" by (cases a)
    have S: "distinct S" "\<forall>x \<in> set S. x < ver_len" "length S = ver_len - k"
      using RandomSample_loop_props [of ver_len "ver_len - k" "[]" rs S rs1] Some a pos
      by (simp_all add: RandomSample_def)
    have ne: "sort S \<noteq> []" using S(3) assms by (auto simp: length_0_conv [symmetric] simp del: length_0_conv)
    then have "last (sort S) \<in> set (sort S)" by (rule last_in_set)
    then have lst: "last (sort S) < ver_len" using S(2) by simp
    have si: "strictly_increasing (sort S)" using S(1) by (simp add: strictly_increasing_iff)
    have neg: "NegateArray (sort S) ver_len [] =
                 Inr (filter (\<lambda>j. j \<notin> set S) [0..<ver_len])"
      using ne lst NegateArray_loop_eq [OF si, of 0 ver_len "[]"]
      by (simp add: NegateArray_def)
    have len: "length (filter (\<lambda>j. j \<notin> set S) [0..<ver_len]) = k"
      using length_filter_complement [OF S(1) S(2)] S(3) assms by simp
    have "sorted_wrt (<) [0..<ver_len]" by (simp add: strict_sorted_iff)
    then have inc: "strictly_increasing (filter (\<lambda>j. j \<notin> set S) [0..<ver_len])"
      unfolding strictly_increasing_sorted_wrt by (rule sorted_wrt_filter)
    show ?thesis using False Some a neg len inc
      by (auto simp: sample_sorted_idxs_def)
  qed
qed

lemma GetUniformSample_props:
  assumes "ver_len \<le> length vid_list" and "ver_len \<le> length edge_id_list"
  shows "(\<forall>out_ver' out_edge' rs'.
            GetUniformSample edge_id_list vid_list ver_len k out_ver out_edge rs =
              Inr ((out_ver', out_edge'), rs') \<longrightarrow>
            (\<exists>ps. length ps = min ver_len k \<and> strictly_increasing ps \<and>
                   (\<forall>p \<in> set ps. p < ver_len) \<and>
                   out_ver' = out_ver @ map (\<lambda>p. vid_list ! p) ps \<and>
                   out_edge' = out_edge @ map (\<lambda>p. edge_id_list ! p) ps)) \<and>
         (\<forall>e. GetUniformSample edge_id_list vid_list ver_len k out_ver out_edge rs = Inl e \<longrightarrow>
            e = DrawsExhausted \<and> k < ver_len) \<and>
         (min k (ver_len - k) \<le> card ((\<lambda>r. r mod ver_len) ` set rs) \<longrightarrow>
            (\<exists>res. GetUniformSample edge_id_list vid_list ver_len k out_ver out_edge rs = Inr res))"
proof (cases "ver_len \<le> k")
  case True
  have "\<exists>ps. length ps = min ver_len k \<and> strictly_increasing ps \<and>
            (\<forall>p \<in> set ps. p < ver_len) \<and>
            take ver_len vid_list = map (\<lambda>p. vid_list ! p) ps \<and>
            take ver_len edge_id_list = map (\<lambda>p. edge_id_list ! p) ps"
    using True assms
    by (intro exI [of _ "[0..<ver_len]"])
       (simp add: strictly_increasing_upt take_eq_map_nth min_def)
  then show ?thesis using True assms by (simp add: GetUniformSample_def)
next
  case False
  then have lt: "k < ver_len" by simp
  note P = sample_sorted_idxs_props [OF lt, of rs]
  show ?thesis
  proof (cases "sample_sorted_idxs ver_len k rs")
    case (Inl e)
    then have "e = DrawsExhausted" using P by blast
    moreover have "\<not> min k (ver_len - k) \<le> card ((\<lambda>r. r mod ver_len) ` set rs)"
      using P Inl by auto
    ultimately show ?thesis using False Inl lt by (simp add: GetUniformSample_def)
  next
    case (Inr a)
    obtain idxs rs1 where a: "a = (idxs, rs1)" by (cases a)
    have I: "length idxs = k" "strictly_increasing idxs" "\<forall>p \<in> set idxs. p < ver_len"
      using P Inr a by blast+
    have rv: "read_all vid_list idxs = Inr (map (\<lambda>p. vid_list ! p) idxs)"
      and re: "read_all edge_id_list idxs = Inr (map (\<lambda>p. edge_id_list ! p) idxs)"
      using I(3) assms by (auto intro!: read_all_in_range)
    have "GetUniformSample edge_id_list vid_list ver_len k out_ver out_edge rs =
            Inr ((out_ver @ map (\<lambda>p. vid_list ! p) idxs,
                  out_edge @ map (\<lambda>p. edge_id_list ! p) idxs), rs1)"
      using False Inr a I rv re by (simp add: GetUniformSample_def)
    moreover have "length idxs = min ver_len k" using I(1) lt by simp
    ultimately show ?thesis using I by auto
  qed
qed

text \<open>
  Claim C10: in uniform neighbor-list sampling, for every neighbor list of length
  \<open>n\<close> (\<open>ver_len\<close>) and bound \<open>k\<close> the output vertex list and the output edge list
  have the same length \<open>min n k\<close>; there are positions of the adjacency slice,
  strictly increasing, such that the \<open>i\<close>-th output vertex and the \<open>i\<close>-th output edge
  id are the entries of the slice at the \<open>i\<close>-th position.  So the outputs keep the
  order of the slice and the pairing of vertex and edge id.  None of the checks of
  the function can fail: the only way not to obtain a result is that the draws handed to the
  model run out, and a result is obtained as soon as the draws hold enough distinct
  indices.
\<close>

theorem C10_uniform_sample_pairing:
  assumes "ver_len \<le> length vid_list" and "ver_len \<le> length edge_id_list"
  shows "(\<forall>out_ver' out_edge' rs'.
            GetUniformSample edge_id_list vid_list ver_len k out_ver out_edge rs =
              Inr ((out_ver', out_edge'), rs') \<longrightarrow>
            (\<exists>ps. length ps = min ver_len k \<and> strictly_increasing ps \<and>
                   (\<forall>p \<in> set ps. p < ver_len) \<and>
                   out_ver' = out_ver @ map (\<lambda>p. vid_list ! p) ps \<and>
                   out_edge' = out_edge @ map (\<lambda>p. edge_id_list ! p) ps)) \<and>
         (\<forall>e. GetUniformSample edge_id_list vid_list ver_len k out_ver out_edge rs = Inl e \<longrightarrow>
            e = DrawsExhausted \<and> k < ver_len) \<and>
         (min k (ver_len - k) \<le> card ((\<lambda>r. r mod ver_len) ` set rs) \<longrightarrow>
            (\<exists>res. GetUniformSample edge_id_list vid_list ver_len k out_ver out_edge rs = Inr res))"
  using assms by (rule GetUniformSample_props)

text \<open>The claim at a neighbor list of five entries: bound two samples the indices to
  keep, bound three samples the indices to drop.\<close>

theorem C10_uniform_sample_pairing_witness:
  "(5::nat) \<le> length [0, 1, 2, 3, 4 :: nat] \<and> (5::nat) \<le> length [10, 11, 12, 13, 14 :: nat] \<and>
   GetUniformSample [10, 11, 12, 13, 14] [0, 1, 2, 3, 4] 5 2 [] [] [7, 12, 3, 4] =
     Inr (([2, 3], [12, 13]), [4]) \<and>
   GetUniformSample [10, 11, 12, 13, 14] [0, 1, 2, 3, 4] 5 3 [] [] [7, 12, 3, 4] =
     Inr (([0, 1, 4], [10, 11, 14]), [4]) \<and>
   (\<exists>ps. length ps = min 5 3 \<and> strictly_increasing ps \<and>
      [0, 1, 4] = [] @ map (\<lambda>p. [0, 1, 2, 3, 4 :: nat] ! p) ps \<and>
      [10, 11, 14] = [] @ map (\<lambda>p. [10, 11, 12, 13, 14 :: nat] ! p) ps)"
proof -
  have l: "(5::nat) \<le> length [0, 1, 2, 3, 4 :: nat]" "(5::nat) \<le> length [10, 11, 12, 13, 14 :: nat]"
    by simp_all
  have r1: "GetUniformSample [10, 11, 12, 13, 14] [0, 1, 2, 3, 4] 5 2 [] [] [7, 12, 3, 4] =
     Inr (([2, 3], [12, 13]), [4])" by code_simp
  have r2: "GetUniformSample [10, 11, 12, 13, 14] [0, 1, 2, 3, 4] 5 3 [] [] [7, 12, 3, 4] =
     Inr (([0, 1, 4], [10, 11, 14]), [4])" by code_simp
  from C10_uniform_sample_pairing [OF l, of 3 "[]" "[]" "[7, 12, 3, 4]"] r2
  have "\<exists>ps. length ps = min 5 3 \<and> strictly_increasing ps \<and> (\<forall>p\<in>set ps. p < 5) \<and>
      [0, 1, 4] = [] @ map (\<lambda>p. [0, 1, 2, 3, 4 :: nat] ! p) ps \<and>
      [10, 11, 14] = [] @ map (\<lambda>p. [10, 11, 12, 13, 14 :: nat] ! p) ps"
    by blast
  then have "\<exists>ps. length ps = min 5 3 \<and> strictly_increasing ps \<and>
      [0, 1, 4] = [] @ map (\<lambda>p. [0, 1, 2, 3, 4 :: nat] ! p) ps \<and>
      [10, 11, 14] = [] @ map (\<lambda>p. [10, 11, 12, 13, 14 :: nat] ! p) ps"
    by blast
  with l r1 r2 show ?thesis by blast
qed

subsection \<open>Weighted sampling of one neighbor list\<close>











subsection \<open>The self loop of an expanded vertex\<close>

lemma index_of_first:
  "x \<in> set xs \<Longrightarrow> index_of x xs < length xs \<and> xs ! index_of x xs = x \<and>
     (\<forall>q < index_of x xs. xs ! q \<noteq> x)"
proof (induction xs)
  case Nil
  then show ?case by simp
next
  case (Cons y ys)
  then show ?case by (auto simp: nth_Cons split: nat.splits)
qed

lemma add_self_loop_step_props:
  "(\<not> add_self_loop \<or> d \<in> set tmp_src \<longrightarrow>
      add_self_loop_step add_self_loop d src_list eid_list ver_len (tmp_src, tmp_edge) =
        Inr (tmp_src, tmp_edge)) \<and>
   (add_self_loop \<and> d \<notin> set tmp_src \<and> d \<notin> set (take ver_len src_list) \<and>
      ver_len \<le> length src_list \<longrightarrow>
      add_self_loop_step add_self_loop d src_list eid_list ver_len (tmp_src, tmp_edge) =
        Inr (tmp_src @ [d], tmp_edge @ [minus_one_id])) \<and>
   (add_self_loop \<and> d \<notin> set tmp_src \<and> d \<in> set (take ver_len src_list) \<and>
      ver_len \<le> length eid_list \<longrightarrow>
      (\<exists>p < ver_len. p < length src_list \<and> src_list ! p = d \<and> (\<forall>q < p. src_list ! q \<noteq> d) \<and>
         add_self_loop_step add_self_loop d src_list eid_list ver_len (tmp_src, tmp_edge) =
           Inr (tmp_src @ [d], tmp_edge @ [eid_list ! p])))"
proof (intro conjI impI)
  assume a: "add_self_loop \<and> d \<notin> set tmp_src \<and> d \<in> set (take ver_len src_list) \<and>
      ver_len \<le> length eid_list"
  let ?p = "index_of d (take ver_len src_list)"
  from a index_of_first [of d "take ver_len src_list"]
  have p: "?p < length (take ver_len src_list)" "take ver_len src_list ! ?p = d"
    "\<forall>q < ?p. take ver_len src_list ! q \<noteq> d" by blast+
  then have pv: "?p < ver_len" "?p < length src_list" "src_list ! ?p = d" by auto
  have "\<forall>q < ?p. src_list ! q \<noteq> d"
  proof (intro allI impI)
    fix q assume q: "q < ?p"
    then have "take ver_len src_list ! q = src_list ! q" using pv(1) by simp
    then show "src_list ! q \<noteq> d" using p(3) q by auto
  qed
  note pv = pv this
  moreover have "add_self_loop_step add_self_loop d src_list eid_list ver_len (tmp_src, tmp_edge) =
           Inr (tmp_src @ [d], tmp_edge @ [eid_list ! ?p])"
    using a pv(1) by (simp add: add_self_loop_step_def read_at_def)
  with pv show "\<exists>p < ver_len. p < length src_list \<and> src_list ! p = d \<and> (\<forall>q < p. src_list ! q \<noteq> d) \<and>
         add_self_loop_step add_self_loop d src_list eid_list ver_len (tmp_src, tmp_edge) =
           Inr (tmp_src @ [d], tmp_edge @ [eid_list ! p])"
    by blast
qed (auto simp: add_self_loop_step_def)

lemma expand_dst_uniform_no_self_edge:
  assumes "Suc d < length indptr_data"
    and "off = indptr_data ! d"
    and "ver_len = usub64 (indptr_data ! Suc d) (indptr_data ! d)"
    and "ver_len \<le> length (drop off col_list)" and "ver_len \<le> length (drop off val_list)"
    and "d \<notin> set (take ver_len (drop off col_list))"
    and "GetUniformSample (drop off val_list) (drop off col_list) ver_len k [] [] rs =
           Inr ((vs, es), rs')"
  shows "expand_dst mem None val_list col_list indptr_data d k True (rs, us) =
           Inr ((vs @ [d], es @ [minus_one_id]), (rs', us))"
proof -
  from GetUniformSample_props [OF assms(4,5), of k "[]" "[]" rs] assms(7)
  obtain ps where ps: "\<forall>p \<in> set ps. p < ver_len"
    "vs = map (\<lambda>p. drop off col_list ! p) ps" "es = map (\<lambda>p. drop off val_list ! p) ps"
    by auto
  have "set vs \<subseteq> set (take ver_len (drop off col_list))"
  proof
    fix x assume "x \<in> set vs"
    then obtain p where p: "p \<in> set ps" "x = drop off col_list ! p" using ps(2) by auto
    then have "p < length (take ver_len (drop off col_list))"
      and "take ver_len (drop off col_list) ! p = x"
      using ps(1) assms(4) by auto
    then show "x \<in> set (take ver_len (drop off col_list))" using nth_mem by blast
  qed
  then have "d \<notin> set vs" using assms(6) by auto
  moreover have "length vs = length es" using ps by simp
  ultimately show ?thesis
    using assms add_self_loop_step_props [where add_self_loop = True and d = d and tmp_src = vs
        and src_list = "drop off col_list" and ver_len = ver_len
        and eid_list = "drop off val_list" and tmp_edge = es]
    by (simp add: expand_dst_def Let_def)
qed

lemma expand_dst_step:
  assumes "expand_dst mem probability val_list col_list indptr_data d k add_self_loop g =
             Inr ((srcs, edges), g')"
  shows "\<exists>tmp_src tmp_edge.
           (case probability of
              None \<Rightarrow>
                GetUniformSample (drop (indptr_data ! d) val_list) (drop (indptr_data ! d) col_list)
                  (usub64 (indptr_data ! Suc d) (indptr_data ! d)) k [] [] (fst g) =
                  Inr ((tmp_src, tmp_edge), fst g') \<and> snd g' = snd g
            | Some p \<Rightarrow>
                GetNonUniformSample mem p (drop (indptr_data ! d) val_list)
                  (drop (indptr_data ! d) col_list)
                  (usub64 (indptr_data ! Suc d) (indptr_data ! d)) k [] [] (snd g) =
                  Inr ((tmp_src, tmp_edge), snd g') \<and> fst g' = fst g) \<and>
           add_self_loop_step add_self_loop d (drop (indptr_data ! d) col_list)
             (drop (indptr_data ! d) val_list)
             (usub64 (indptr_data ! Suc d) (indptr_data ! d)) (tmp_src, tmp_edge) =
             Inr (srcs, edges) \<and>
           length srcs = length edges \<and> Suc d < length indptr_data"
  using assms
  by (cases probability)
     (auto simp: expand_dst_def Let_def split: if_splits sum.splits prod.splits)

text \<open>
  Claim C4, as stated: with \<^verbatim>\<open>add_self_loop\<close>, the sampled list of a destination
  vertex that already has a self-edge is left unchanged.  It is not, when the
  self-edge was not sampled: vertex \<open>0\<close> has the neighbors \<open>[0,1,2]\<close> with the edge ids
  \<open>[0,1,2]\<close>, the bound is one and the draw selects position \<open>1\<close>; the sampled lists
  \<open>([1],[1])\<close> become \<open>([1,0],[1,0])\<close>.
\<close>

theorem C4_counterexample:
  "(0::nat) \<in> set (take 3 [0, 1, 2]) \<and>
   GetUniformSample [0, 1, 2] [0, 1, 2] 3 1 [] [] [1] = Inr (([1], [1]), []) \<and>
   expand_dst zero_behind (None :: int list option) [0, 1, 2] [0, 1, 2] [0, 3, 3, 3] 0 1 True ([1], []) =
     Inr (([1, 0], [1, 0]), ([], [])) \<and>
   expand_dst zero_behind (None :: int list option) [0, 1, 2] [0, 1, 2] [0, 3, 3, 3] 0 1 True ([1], []) \<noteq>
     Inr (([1], [1]), ([], []))"
  by code_simp

text \<open>
  Claim C4, amended: with \<^verbatim>\<open>add_self_loop\<close>, for every expanded destination vertex
  \<open>d\<close> the self-loop step is applied to the lists the sampler returned.  If \<open>d\<close> is
  among the sampled neighbors, the lists are unchanged (no duplicate of \<open>d\<close> is
  appended).  If \<open>d\<close> is not among them, \<open>d\<close> is appended to the vertex list; the edge
  id appended is \<open>-1\<close> when the neighbor list of \<open>d\<close> has no self-edge, and the id of
  the first self-edge of the neighbor list when it has one.  In uniform sampling a
  vertex without a self-edge is never among the sampled neighbors, so it is
  appended with edge id \<open>-1\<close>.
\<close>

theorem C4_self_loop_unless_sampled:
  "(\<forall>srcs edges g'.
      expand_dst mem probability val_list col_list indptr_data d k True g = Inr ((srcs, edges), g') \<longrightarrow>
      (\<exists>tmp_src tmp_edge.
         (case probability of
            None \<Rightarrow>
              GetUniformSample (drop (indptr_data ! d) val_list) (drop (indptr_data ! d) col_list)
                (usub64 (indptr_data ! Suc d) (indptr_data ! d)) k [] [] (fst g) =
                Inr ((tmp_src, tmp_edge), fst g') \<and> snd g' = snd g
          | Some p \<Rightarrow>
              GetNonUniformSample mem p (drop (indptr_data ! d) val_list)
                (drop (indptr_data ! d) col_list)
                (usub64 (indptr_data ! Suc d) (indptr_data ! d)) k [] [] (snd g) =
                Inr ((tmp_src, tmp_edge), snd g') \<and> fst g' = fst g) \<and>
         add_self_loop_step True d (drop (indptr_data ! d) col_list)
           (drop (indptr_data ! d) val_list)
           (usub64 (indptr_data ! Suc d) (indptr_data ! d)) (tmp_src, tmp_edge) =
           Inr (srcs, edges))) \<and>
   (d \<in> set tmp_src \<longrightarrow>
      add_self_loop_step True d src_list eid_list ver_len (tmp_src, tmp_edge) =
        Inr (tmp_src, tmp_edge)) \<and>
   (d \<notin> set tmp_src \<and> d \<notin> set (take ver_len src_list) \<and> ver_len \<le> length src_list \<longrightarrow>
      add_self_loop_step True d src_list eid_list ver_len (tmp_src, tmp_edge) =
        Inr (tmp_src @ [d], tmp_edge @ [minus_one_id])) \<and>
   (d \<notin> set tmp_src \<and> d \<in> set (take ver_len src_list) \<and> ver_len \<le> length eid_list \<longrightarrow>
      (\<exists>p < ver_len. p < length src_list \<and> src_list ! p = d \<and> (\<forall>q < p. src_list ! q \<noteq> d) \<and>
         add_self_loop_step True d src_list eid_list ver_len (tmp_src, tmp_edge) =
           Inr (tmp_src @ [d], tmp_edge @ [eid_list ! p]))) \<and>
   (Suc d < length indptr_data \<and>
    usub64 (indptr_data ! Suc d) (indptr_data ! d) \<le> length (drop (indptr_data ! d) col_list) \<and>
    usub64 (indptr_data ! Suc d) (indptr_data ! d) \<le> length (drop (indptr_data ! d) val_list) \<and>
    d \<notin> set (take (usub64 (indptr_data ! Suc d) (indptr_data ! d))
                 (drop (indptr_data ! d) col_list)) \<and>
    GetUniformSample (drop (indptr_data ! d) val_list) (drop (indptr_data ! d) col_list)
      (usub64 (indptr_data ! Suc d) (indptr_data ! d)) k [] [] rs = Inr ((vs, es), rs') \<longrightarrow>
    expand_dst mem None val_list col_list indptr_data d k True (rs, us) =
      Inr ((vs @ [d], es @ [minus_one_id]), (rs', us)))"
proof (intro conjI allI impI)
  fix srcs edges g'
  assume "expand_dst mem probability val_list col_list indptr_data d k True g = Inr ((srcs, edges), g')"
  from expand_dst_step [OF this]
  show "\<exists>tmp_src tmp_edge.
         (case probability of
            None \<Rightarrow>
              GetUniformSample (drop (indptr_data ! d) val_list) (drop (indptr_data ! d) col_list)
                (usub64 (indptr_data ! Suc d) (indptr_data ! d)) k [] [] (fst g) =
                Inr ((tmp_src, tmp_edge), fst g') \<and> snd g' = snd g
          | Some p \<Rightarrow>
              GetNonUniformSample mem p (drop (indptr_data ! d) val_list)
                (drop (indptr_data ! d) col_list)
                (usub64 (indptr_data ! Suc d) (indptr_data ! d)) k [] [] (snd g) =
                Inr ((tmp_src, tmp_edge), snd g') \<and> fst g' = fst g) \<and>
         add_self_loop_step True d (drop (indptr_data ! d) col_list)
           (drop (indptr_data ! d) val_list)
           (usub64 (indptr_data ! Suc d) (indptr_data ! d)) (tmp_src, tmp_edge) =
           Inr (srcs, edges)"
    by blast
next
  assume "d \<in> set tmp_src"
  then show "add_self_loop_step True d src_list eid_list ver_len (tmp_src, tmp_edge) =
        Inr (tmp_src, tmp_edge)"
    using add_self_loop_step_props [where add_self_loop = True and d = d and tmp_src = tmp_src]
    by blast
next
  assume "d \<notin> set tmp_src \<and> d \<notin> set (take ver_len src_list) \<and> ver_len \<le> length src_list"
  then show "add_self_loop_step True d src_list eid_list ver_len (tmp_src, tmp_edge) =
        Inr (tmp_src @ [d], tmp_edge @ [minus_one_id])"
    using add_self_loop_step_props [where add_self_loop = True and d = d and tmp_src = tmp_src
        and src_list = src_list and ver_len = ver_len]
    by blast
next
  assume "d \<notin> set tmp_src \<and> d \<in> set (take ver_len src_list) \<and> ver_len \<le> length eid_list"
  then show "\<exists>p < ver_len. p < length src_list \<and> src_list ! p = d \<and> (\<forall>q < p. src_list ! q \<noteq> d) \<and>
         add_self_loop_step True d src_list eid_list ver_len (tmp_src, tmp_edge) =
           Inr (tmp_src @ [d], tmp_edge @ [eid_list ! p])"
    using add_self_loop_step_props [where add_self_loop = True and d = d and tmp_src = tmp_src
        and src_list = src_list and ver_len = ver_len and eid_list = eid_list
        and tmp_edge = tmp_edge]
    by blast
next
  assume a: "Suc d < length indptr_data \<and>
    usub64 (indptr_data ! Suc d) (indptr_data ! d) \<le> length (drop (indptr_data ! d) col_list) \<and>
    usub64 (indptr_data ! Suc d) (indptr_data ! d) \<le> length (drop (indptr_data ! d) val_list) \<and>
    d \<notin> set (take (usub64 (indptr_data ! Suc d) (indptr_data ! d))
                 (drop (indptr_data ! d) col_list)) \<and>
    GetUniformSample (drop (indptr_data ! d) val_list) (drop (indptr_data ! d) col_list)
      (usub64 (indptr_data ! Suc d) (indptr_data ! d)) k [] [] rs = Inr ((vs, es), rs')"
  show "expand_dst mem None val_list col_list indptr_data d k True (rs, us) =
      Inr ((vs @ [d], es @ [minus_one_id]), (rs', us))"
    by (rule expand_dst_uniform_no_self_edge [OF _ refl refl]) (use a in blast)+
qed

text \<open>The amended claim at vertex \<open>0\<close> of the example above and at a vertex \<open>3\<close>
  whose neighbor list \<open>[0,1,2]\<close> has no self-edge.\<close>

theorem C4_self_loop_unless_sampled_witness:
  "add_self_loop_step True 2 [0, 2, 4] [10, 11, 12] 3 ([2], [11]) = Inr ([2], [11]) \<and>
   add_self_loop_step True 3 [0, 2, 4] [10, 11, 12] 3 ([2], [11]) =
     Inr ([2, 3], [11, minus_one_id]) \<and>
   (\<exists>p < 3. [0, 2, 4 :: nat] ! p = 0 \<and>
      add_self_loop_step True 0 [0, 2, 4] [10, 11, 12] 3 ([2], [11]) =
        Inr ([2, 0], [11, [10, 11, 12] ! p])) \<and>
   expand_dst zero_behind (None :: int list option) [10, 11, 12] [0, 2, 4] [0, 0, 0, 0, 3] 3 1 True ([1], []) =
     Inr (([2, 3], [11, minus_one_id]), ([], []))"
proof -
  note T = C4_self_loop_unless_sampled
    [where src_list = "[0, 2, 4]" and eid_list = "[10, 11, 12]" and ver_len = 3
       and tmp_src = "[2]" and tmp_edge = "[11]" and probability = "None :: int list option"
       and val_list = "[10, 11, 12]" and col_list = "[0, 2, 4]" and indptr_data = "[0, 0, 0, 0, 3]"
       and k = 1 and rs = "[1]" and us = "[]" and vs = "[2]" and es = "[11]" and rs' = "[]"
       and g = "([1], [])" and mem = zero_behind]
  have h1: "(2::nat) \<in> set [2]" by simp
  have h2: "(3::nat) \<notin> set [2] \<and> (3::nat) \<notin> set (take 3 [0, 2, 4]) \<and>
            (3::nat) \<le> length [0, 2, 4 :: nat]"
    by simp
  have h3: "(0::nat) \<notin> set [2] \<and> (0::nat) \<in> set (take 3 [0, 2, 4]) \<and>
            (3::nat) \<le> length [10, 11, 12 :: nat]"
    by simp
  have u: "usub64 ([0, 0, 0, 0, 3] ! Suc 3) ([0, 0, 0, 0, 3] ! 3) = 3" by code_simp
  have s: "GetUniformSample [10, 11, 12] [0, 2, 4] 3 1 [] [] [1] = Inr (([2], [11]), [])"
    by code_simp
  have h4: "Suc 3 < length [0, 0, 0, 0, 3 :: nat] \<and>
    usub64 ([0, 0, 0, 0, 3] ! Suc 3) ([0, 0, 0, 0, 3] ! 3)
      \<le> length (drop ([0, 0, 0, 0, 3] ! 3) [0, 2, 4 :: nat]) \<and>
    usub64 ([0, 0, 0, 0, 3] ! Suc 3) ([0, 0, 0, 0, 3] ! 3)
      \<le> length (drop ([0, 0, 0, 0, 3] ! 3) [10, 11, 12 :: nat]) \<and>
    (3::nat) \<notin> set (take (usub64 ([0, 0, 0, 0, 3] ! Suc 3) ([0, 0, 0, 0, 3] ! 3))
                 (drop ([0, 0, 0, 0, 3] ! 3) [0, 2, 4])) \<and>
    GetUniformSample (drop ([0, 0, 0, 0, 3] ! 3) [10, 11, 12]) (drop ([0, 0, 0, 0, 3] ! 3) [0, 2, 4])
      (usub64 ([0, 0, 0, 0, 3] ! Suc 3) ([0, 0, 0, 0, 3] ! 3)) 1 [] [] [1] = Inr (([2], [11]), [])"
    unfolding u using s by simp
  have a1: "add_self_loop_step True 2 [0, 2, 4] [10, 11, 12] 3 ([2], [11]) = Inr ([2], [11])"
    using T [where d = 2] h1 by blast
  have a2: "add_self_loop_step True 3 [0, 2, 4] [10, 11, 12] 3 ([2], [11]) =
     Inr ([2] @ [3], [11] @ [minus_one_id])"
    using T [where d = 3] h2 by blast
  have "\<exists>p < 3. p < length [0, 2, 4 :: nat] \<and> [0, 2, 4 :: nat] ! p = 0 \<and>
      (\<forall>q < p. [0, 2, 4 :: nat] ! q \<noteq> 0) \<and>
      add_self_loop_step True 0 [0, 2, 4] [10, 11, 12] 3 ([2], [11]) =
        Inr ([2] @ [0], [11] @ [[10, 11, 12] ! p])"
    using T [where d = 0] h3 by blast
  then have a3: "\<exists>p < 3. [0, 2, 4 :: nat] ! p = 0 \<and>
      add_self_loop_step True 0 [0, 2, 4] [10, 11, 12] 3 ([2], [11]) =
        Inr ([2, 0], [11, [10, 11, 12] ! p])"
    by auto
  have a4: "expand_dst zero_behind (None :: int list option) [10, 11, 12] [0, 2, 4] [0, 0, 0, 0, 3] 3 1 True
              ([1], []) = Inr (([2] @ [3], [11] @ [minus_one_id]), ([], []))"
    using T [where d = 3] h4 by blast
  from a1 a2 a3 a4 show ?thesis by simp
qed

subsection \<open>Invariants of the node flows\<close>

text \<open>An invariant of the states of a loop holds after the loop when it holds
  before and every step keeps it.\<close>

lemma foldM_err_inv:
  assumes "foldM_err f xs s = Inr s'" and "P s"
    and "\<And>x t t'. x \<in> set xs \<Longrightarrow> P t \<Longrightarrow> f x t = Inr t' \<Longrightarrow> P t'"
  shows "P s'"
  using assms
proof (induction xs arbitrary: s)
  case Nil
  then show ?case by simp
next
  case (Cons x xs)
  from Cons.prems(1) obtain t where fx: "f x s = Inr t" and rest: "foldM_err f xs t = Inr s'"
    by (auto split: sum.splits)
  have "P t" using Cons.prems(3)[of x s t] Cons.prems(2) fx by simp
  moreover have "\<And>y u u'. y \<in> set xs \<Longrightarrow> P u \<Longrightarrow> f y u = Inr u' \<Longrightarrow> P u'"
    using Cons.prems(3) by (meson list.set_intros(2))
  ultimately show ?case using Cons.IH[OF rest] by blast
qed

lemma foldM_err_count:
  assumes "foldM_err f xs s = Inr s'"
    and "\<And>x t t'. f x t = Inr t' \<Longrightarrow> m t' = Suc (m t)"
  shows "m s' = m s + length xs"
  using assms(1)
proof (induction xs arbitrary: s)
  case Nil
  then show ?case by simp
next
  case (Cons x xs)
  from Cons.prems obtain t where fx: "f x s = Inr t" and rest: "foldM_err f xs t = Inr s'"
    by (auto split: sum.splits)
  show ?case using Cons.IH[OF rest] assms(2)[OF fx] by simp
qed

lemma read_all_subset: "read_all p is = Inr xs \<Longrightarrow> set xs \<subseteq> set p"
  by (auto dest!: read_all_Inr)

lemma GetUniformSample_subset:
  "GetUniformSample e v n k [] [] rs = Inr ((vs, es), rs') \<Longrightarrow> set vs \<subseteq> set v"
  unfolding GetUniformSample_def
  by (auto split: if_splits sum.splits prod.splits dest!: read_all_subset dest: in_set_takeD)

lemma read_behind_cases: "read_behind behind p i \<in> set p \<union> range behind"
  by (simp add: read_behind_def)

lemma GetNonUniformSample_subset:
  assumes "GetNonUniformSample mem p e v n k [] [] us = Inr ((vs, es), us')"
  shows "set vs \<subseteq> set v \<union> range (behind_vids mem)"
proof (cases "n \<le> k")
  case True
  then show ?thesis
    using assms unfolding GetNonUniformSample_def
    by (auto split: if_splits dest: in_set_takeD)
next
  case False
  with assms obtain sp_index where
    "vs = sort (map (read_behind (behind_vids mem) v) sp_index)"
    unfolding GetNonUniformSample_def
    by (auto split: if_splits sum.splits prod.splits option.splits)
  then have "set vs = read_behind (behind_vids mem) v ` set sp_index" by simp
  moreover have "\<forall>i. read_behind (behind_vids mem) v i \<in> set v \<union> range (behind_vids mem)"
    using read_behind_cases [of "behind_vids mem" v] by simp
  ultimately show ?thesis by auto
qed

lemma add_self_loop_step_subset:
  "add_self_loop_step a d sl el n (vs, es) = Inr (vs', es') \<Longrightarrow> set vs' \<subseteq> set vs \<union> {d}"
  unfolding add_self_loop_step_def
  by (auto split: if_splits sum.splits)

lemma expand_dst_subset:
  assumes "expand_dst mem p vl cl ip d k a g = Inr ((srcs, es), g')"
  shows "set srcs \<subseteq> set cl \<union> {d} \<union> (if p = None then {} else range (behind_vids mem))"
proof -
  from assms obtain tmpv tmpe where
    smp: "(case p of
             None \<Rightarrow> (\<exists>rs'. GetUniformSample (drop (ip ! d) vl) (drop (ip ! d) cl)
                        (usub64 (ip ! Suc d) (ip ! d)) k [] [] (fst g) = Inr ((tmpv, tmpe), rs'))
           | Some pr \<Rightarrow> (\<exists>us'. GetNonUniformSample mem pr (drop (ip ! d) vl) (drop (ip ! d) cl)
                        (usub64 (ip ! Suc d) (ip ! d)) k [] [] (snd g) = Inr ((tmpv, tmpe), us')))"
    and asl: "add_self_loop_step a d (drop (ip ! d) cl) (drop (ip ! d) vl)
                (usub64 (ip ! Suc d) (ip ! d)) (tmpv, tmpe) = Inr (srcs, es)"
    unfolding expand_dst_def
    by (auto simp: Let_def split: if_splits sum.splits prod.splits option.splits)
  have "set tmpv \<subseteq> set (drop (ip ! d) cl) \<union>
          (if p = None then {} else range (behind_vids mem))"
  proof (cases p)
    case None
    then show ?thesis using smp GetUniformSample_subset by fastforce
  next
    case (Some pr)
    then obtain us' where "GetNonUniformSample mem pr (drop (ip ! d) vl) (drop (ip ! d) cl)
                        (usub64 (ip ! Suc d) (ip ! d)) k [] [] (snd g) = Inr ((tmpv, tmpe), us')"
      using smp by auto
    from GetNonUniformSample_subset [OF this] show ?thesis using Some by simp
  qed
  moreover have "set (drop (ip ! d) cl) \<subseteq> set cl" by (rule set_drop_subset)
  ultimately have "set tmpv \<subseteq> set cl \<union> (if p = None then {} else range (behind_vids mem))"
    by blast
  then show ?thesis using add_self_loop_step_subset[OF asl] by blast
qed

lemma enqueue_new_subset:
  "enqueue_new vs lvl m sv = (m', sv') \<Longrightarrow> fst ` set sv' \<subseteq> fst ` set sv \<union> set vs"
  by (induction vs lvl m sv rule: enqueue_new.induct) (auto split: if_splits)

lemma add_seeds_subset:
  "add_seeds xs m sv = (m', sv') \<Longrightarrow> fst ` set sv' \<subseteq> fst ` set sv \<union> set xs"
  by (induction xs m sv rule: add_seeds.induct) (auto split: if_splits)

lemma expand_idx_valid:
  assumes "expand_idx mem p vl cl ip k a idx s = Inr s'"
    and "\<forall>x \<in> set cl. x < N"
    and "\<forall>q \<in> set (st_sub_vers s). fst q < N"
    and "p \<noteq> None \<longrightarrow> (\<forall>i. behind_vids mem i < N)"
  shows "\<forall>q \<in> set (st_sub_vers s'). fst q < N"
proof -
  from assms(1) obtain srcs es g' m' sv' where
    idx: "idx < length (st_sub_vers s)"
    and ed: "expand_dst mem p vl cl ip (fst (st_sub_vers s ! idx)) k a (st_rng s) =
               Inr ((srcs, es), g')"
    and en: "enqueue_new srcs (snd (st_sub_vers s ! idx) + 1) (st_sub_ver_map s) (st_sub_vers s)
               = (m', sv')"
    and s': "st_sub_vers s' = sv'"
    unfolding expand_idx_def
    by (auto simp: Let_def split: if_splits sum.splits prod.splits)
  have "fst (st_sub_vers s ! idx) < N" using idx assms(3) by simp
  moreover have "\<forall>x \<in> (if p = None then {} else range (behind_vids mem)). x < N"
    using assms(4) by auto
  ultimately have "\<forall>x \<in> set srcs. x < N" using expand_dst_subset[OF ed] assms(2) by blast
  then show ?thesis using enqueue_new_subset[OF en] assms(3) s' by fastforce
qed

lemma expand_layer_valid:
  assumes "expand_layer mem p vl cl ip k a layer_id (lo, s) = Inr (lo', s')"
    and "\<forall>x \<in> set cl. x < N"
    and "\<forall>q \<in> set (st_sub_vers s). fst q < N"
    and "p \<noteq> None \<longrightarrow> (\<forall>i. behind_vids mem i < N)"
  shows "\<forall>q \<in> set (st_sub_vers s'). fst q < N"
proof -
  from assms(1) have f: "foldM_err (expand_idx mem p vl cl ip k a)
       [lo ! (layer_id - 1)..<lo ! layer_id] (s\<lparr>st_sub_ver_map := []\<rparr>) = Inr s'"
    unfolding expand_layer_def
    by (auto simp: Let_def split: if_splits sum.splits prod.splits)
  show ?thesis
  proof (rule foldM_err_inv[OF f, where P = "\<lambda>t. \<forall>q \<in> set (st_sub_vers t). fst q < N"])
    show "\<forall>q \<in> set (st_sub_vers (s\<lparr>st_sub_ver_map := []\<rparr>)). fst q < N"
      using assms(3) by simp
  next
    fix x t t'
    assume "\<forall>q \<in> set (st_sub_vers t). fst q < N"
      and "expand_idx mem p vl cl ip k a x t = Inr t'"
    then show "\<forall>q \<in> set (st_sub_vers t'). fst q < N"
      using expand_idx_valid [OF _ assms(2) _ assms(4)] by blast
  qed
qed

text \<open>The first loop of \<^verbatim>\<open>ConstructNodeFlow\<close> permutes the queue within its layers and
  copies its vertices; the second keeps the row pointers increasing up to the
  current row, where they hold the number of edges copied so far.\<close>

lemma number_layer_valid:
  assumes "number_layer lo layer_id (sv, nm, lvm) = Inr (sv', nm', lvm')"
    and "\<forall>q \<in> set sv. fst q < N" and "\<forall>v \<in> set nm. v < N"
  shows "(\<forall>q \<in> set sv'. fst q < N) \<and> (\<forall>v \<in> set nm'. v < N)"
proof -
  define layer where "layer = take (lo ! (layer_id + 1) - lo ! layer_id) (drop (lo ! layer_id) sv)"
  define layer' where "layer' = (if layer_id > 0 then sort_key fst layer else layer)"
  from assms(1) have sv': "sv' = take (lo ! layer_id) sv @ layer' @ drop (lo ! (layer_id + 1)) sv"
    and nm': "nm' = nm @ map fst layer'"
    unfolding number_layer_def layer_def layer'_def
    by (auto simp: Let_def split: if_splits)
  have "set layer' \<subseteq> set sv"
    unfolding layer'_def layer_def by (auto dest: in_set_takeD in_set_dropD)
  then have "set sv' \<subseteq> set sv" unfolding sv' by (auto dest: in_set_takeD in_set_dropD)
  moreover have "set nm' \<subseteq> set nm \<union> fst ` set sv"
    unfolding nm' using \<open>set layer' \<subseteq> set sv\<close> by auto
  ultimately show ?thesis using assms(2,3) by blast
qed

lemma copy_row_inv:
  assumes "copy_row sv np nl el vm i b = Inr b'"
    and "length (cb_indptr b) = L"
    and "cb_row_idx b < L \<longrightarrow> cb_indptr b ! cb_row_idx b = length (cb_edge_map b)"
    and "\<forall>i j. i \<le> j \<and> j \<le> cb_row_idx b \<and> j < L \<longrightarrow> cb_indptr b ! i \<le> cb_indptr b ! j"
  shows "length (cb_indptr b') = L \<and>
         (cb_row_idx b' < L \<longrightarrow> cb_indptr b' ! cb_row_idx b' = length (cb_edge_map b')) \<and>
         (\<forall>i j. i \<le> j \<and> j \<le> cb_row_idx b' \<and> j < L \<longrightarrow> cb_indptr b' ! i \<le> cb_indptr b' ! j)"
proof -
  from assms(1) obtain nid pos nedges cols where
    np: "np ! i = (nid, pos, nedges)"
    and bound: "pos + nedges \<le> length el"
    and r: "cb_row_idx b + 1 < length (cb_indptr b)"
    and b': "b' = \<lparr> cb_indptr = (cb_indptr b)[cb_row_idx b + 1 := cb_indptr b ! cb_row_idx b + nedges],
                    cb_col_list = cb_col_list b @ cols,
                    cb_edge_map = cb_edge_map b @ take nedges (drop pos el),
                    cb_row_idx = cb_row_idx b + 1 \<rparr>"
    unfolding copy_row_def
    by (auto split: if_splits sum.splits prod.splits)
  have len: "length (take nedges (drop pos el)) = nedges" using bound by simp
  have c1: "length (cb_indptr b') = L" using b' assms(2) by simp
  have c2: "cb_indptr b' ! cb_row_idx b' = length (cb_edge_map b')"
    using b' r assms(2,3) len by simp
  have c3: "cb_indptr b' ! i \<le> cb_indptr b' ! j"
    if "i \<le> j" "j \<le> cb_row_idx b'" "j < L" for i j
  proof (cases "j = cb_row_idx b + 1")
    case True
    show ?thesis
    proof (cases "i = j")
      case True
      then show ?thesis by simp
    next
      case False
      then have "i \<le> cb_row_idx b" using that True by simp
      then have "cb_indptr b ! i \<le> cb_indptr b ! cb_row_idx b"
        using assms(4) r assms(2) by simp
      then show ?thesis using b' True False r \<open>i \<le> cb_row_idx b\<close> by simp
    qed
  next
    case False
    then have "j \<le> cb_row_idx b" using that b' by simp
    then have "cb_indptr b ! i \<le> cb_indptr b ! j" using assms(4) that by simp
    then show ?thesis using b' \<open>j \<le> cb_row_idx b\<close> that by simp
  qed
  show ?thesis using c1 c2 c3 by blast
qed



lemma copy_layer_inv:
  assumes "copy_layer lo sv nl el lvm layer_id (np, lod, b) = Inr (np', lod', b')"
    and "lod \<noteq> []"
    and "length (cb_indptr b) = L"
    and "cb_row_idx b < L \<longrightarrow> cb_indptr b ! cb_row_idx b = length (cb_edge_map b)"
    and "\<forall>i j. i \<le> j \<and> j \<le> cb_row_idx b \<and> j < L \<longrightarrow> cb_indptr b ! i \<le> cb_indptr b ! j"
  shows "lod' \<noteq> [] \<and> lod' ! 0 = lod ! 0 \<and> length lod' = Suc (length lod) \<and>
         length (cb_indptr b') = L \<and>
         (cb_row_idx b' < L \<longrightarrow> cb_indptr b' ! cb_row_idx b' = length (cb_edge_map b')) \<and>
         (\<forall>i j. i \<le> j \<and> j \<le> cb_row_idx b' \<and> j < L \<longrightarrow> cb_indptr b' ! i \<le> cb_indptr b' ! j)"
proof -
  let ?J = "\<lambda>b. length (cb_indptr b) = L \<and>
         (cb_row_idx b < L \<longrightarrow> cb_indptr b ! cb_row_idx b = length (cb_edge_map b)) \<and>
         (\<forall>i j. i \<le> j \<and> j \<le> cb_row_idx b \<and> j < L \<longrightarrow> cb_indptr b ! i \<le> cb_indptr b ! j)"
  define np2 where "np2 = take (lo ! layer_id) np @
      (if layer_id > 0
       then sort_key fst (take (lo ! (layer_id + 1) - lo ! layer_id) (drop (lo ! layer_id) np))
       else take (lo ! (layer_id + 1) - lo ! layer_id) (drop (lo ! layer_id) np)) @
      drop (lo ! (layer_id + 1)) np"
  define vm where "vm = lvm ! (layer_id + 1)"
  from assms(1) have
    f: "foldM_err (copy_row sv np2 nl el vm) [lo ! layer_id..<lo ! (layer_id + 1)] b = Inr b'"
    and lod': "lod' = lod @ [last lod + (lo ! (layer_id + 1) - lo ! layer_id)]"
    unfolding copy_layer_def Let_def np2_def vm_def
    by (simp_all split: if_splits sum.splits)
  have "?J b'"
  proof (rule foldM_err_inv[OF f, where P = ?J])
    show "?J b" using assms(3,4,5) by blast
  next
    fix x t t'
    assume "?J t" and st: "copy_row sv np2 nl el vm x t = Inr t'"
    then show "?J t'" using copy_row_inv[OF st, of L] by blast
  qed
  moreover have "lod' \<noteq> [] \<and> lod' ! 0 = lod ! 0 \<and> length lod' = Suc (length lod)"
    using lod' assms(2) by (cases lod) simp_all
  ultimately show ?thesis by blast
qed

lemma copy_flow_offset_length:
  "copy_flow_offset ip lod i fod = Inr fod' \<Longrightarrow> length fod' = Suc (length fod)"
  unfolding copy_flow_offset_def by (auto split: if_splits)

lemma ConstructNodeFlow_parts:
  assumes "ConstructNodeFlow nl el lo sv np et ne nh = Inr nf"
  shows "\<exists>sv' nm lvm np' lod b fod.
           nh \<noteq> 0 \<and>
           foldM_err (number_layer lo) (rev [0..<nh]) (sv, [], replicate nh []) =
             Inr (sv', nm, lvm) \<and>
           length nm = length sv \<and>
           foldM_err (copy_layer lo sv' nl el lvm) (rev [0..<nh - 1])
             (np, [0, lo ! nh - lo ! (nh - 1)],
              \<lparr> cb_indptr = replicate (length sv + 1) 0, cb_col_list = [],
                cb_edge_map = [], cb_row_idx = lo ! nh - lo ! (nh - 1) \<rparr>) = Inr (np', lod, b) \<and>
           cb_row_idx b = length sv \<and> cb_indptr b ! cb_row_idx b = ne \<and>
           lod ! nh = length sv \<and>
           foldM_err (copy_flow_offset (cb_indptr b) lod) [0..<length lo - 2] [0] = Inr fod \<and>
           length fod - 1 = nh - 1 \<and> fod ! (nh - 1) = ne \<and>
           nf_csr nf = Some \<lparr> num_rows = length sv, num_cols = length sv,
                               indptr = cb_indptr b, indices = cb_col_list b,
                               data = [0..<ne] \<rparr> \<and>
           nf_node_mapping nf = nm \<and> nf_edge_mapping nf = cb_edge_map b \<and>
           nf_layer_offsets nf = lod \<and> nf_flow_offsets nf = fod"
  using assms unfolding ConstructNodeFlow_def Let_def nf_csr_def
  by (auto split: if_splits sum.splits prod.splits)


lemma ConstructNodeFlow_invariants:
  assumes "ConstructNodeFlow nl el lo sv np et ne nh = Inr nf"
    and "\<forall>q \<in> set sv. fst q < N"
  shows "NodeFlow_invariants N nf"
proof -
  let ?L = "length sv + 1"
  let ?b0 = "\<lparr> cb_indptr = replicate ?L 0, cb_col_list = [], cb_edge_map = [],
               cb_row_idx = lo ! nh - lo ! (nh - 1) \<rparr>"
  from ConstructNodeFlow_parts[OF assms(1)] obtain sv' nm lvm np' lod b fod where
    nh: "nh \<noteq> 0"
    and f1: "foldM_err (number_layer lo) (rev [0..<nh]) (sv, [], replicate nh []) =
               Inr (sv', nm, lvm)"
    and nm: "length nm = length sv"
    and f2: "foldM_err (copy_layer lo sv' nl el lvm) (rev [0..<nh - 1])
               (np, [0, lo ! nh - lo ! (nh - 1)], ?b0) = Inr (np', lod, b)"
    and row: "cb_row_idx b = length sv"
    and ne: "cb_indptr b ! cb_row_idx b = ne"
    and lodn: "lod ! nh = length sv"
    and f3: "foldM_err (copy_flow_offset (cb_indptr b) lod) [0..<length lo - 2] [0] = Inr fod"
    and fodl: "length fod - 1 = nh - 1"
    and fodn: "fod ! (nh - 1) = ne"
    and csr: "nf_csr nf = Some \<lparr> num_rows = length sv, num_cols = length sv,
                                  indptr = cb_indptr b, indices = cb_col_list b,
                                  data = [0..<ne] \<rparr>"
    and nfn: "nf_node_mapping nf = nm" and nfe: "nf_edge_mapping nf = cb_edge_map b"
    and nfl: "nf_layer_offsets nf = lod" and nff: "nf_flow_offsets nf = fod"
    by (elim exE conjE) (rule that)
  let ?P1 = "\<lambda>st. case st of (sv, nm, lvm) \<Rightarrow>
               (\<forall>q \<in> set sv. fst q < N) \<and> (\<forall>v \<in> set nm. v < (N::nat))"
  have "?P1 (sv', nm, lvm)"
  proof (rule foldM_err_inv[OF f1, where P = ?P1])
    show "?P1 (sv, [], replicate nh [])" using assms(2) by simp
  next
    fix x t t'
    assume p: "?P1 t" and st: "number_layer lo x t = Inr t'"
    obtain a1 a2 a3 where t: "t = (a1, a2, a3)" by (cases t)
    obtain b1 b2 b3 where t': "t' = (b1, b2, b3)" by (cases t')
    from p have pa: "\<forall>q \<in> set a1. fst q < N" and pb: "\<forall>v \<in> set a2. v < N"
      unfolding t prod.case by blast+
    from number_layer_valid[OF st[unfolded t t'] pa pb] show "?P1 t'"
      unfolding t' prod.case by blast
  qed
  then have valid: "\<forall>v \<in> set nm. v < N" by simp
  let ?J = "\<lambda>b. length (cb_indptr b) = ?L \<and>
         (cb_row_idx b < ?L \<longrightarrow> cb_indptr b ! cb_row_idx b = length (cb_edge_map b)) \<and>
         (\<forall>i j. i \<le> j \<and> j \<le> cb_row_idx b \<and> j < ?L \<longrightarrow> cb_indptr b ! i \<le> cb_indptr b ! j)"
  let ?P2 = "\<lambda>st. case st of (np, lod, b) \<Rightarrow> lod \<noteq> [] \<and> lod ! 0 = (0::nat) \<and> ?J b"
  have "?P2 (np', lod, b)"
  proof (rule foldM_err_inv[OF f2, where P = ?P2])
    show "?P2 (np, [0, lo ! nh - lo ! (nh - 1)], ?b0)" by (auto simp del: replicate_Suc)
  next
    fix x t t'
    assume p: "?P2 t" and st: "copy_layer lo sv' nl el lvm x t = Inr t'"
    obtain a1 a2 a3 where t: "t = (a1, a2, a3)" by (cases t)
    obtain b1 b2 b3 where t': "t' = (b1, b2, b3)" by (cases t')
    from p have p1: "a2 \<noteq> []" and p2: "a2 ! 0 = 0" and p3: "length (cb_indptr a3) = ?L"
      and p4: "cb_row_idx a3 < ?L \<longrightarrow> cb_indptr a3 ! cb_row_idx a3 = length (cb_edge_map a3)"
      and p5: "\<forall>i j. i \<le> j \<and> j \<le> cb_row_idx a3 \<and> j < ?L \<longrightarrow>
                 cb_indptr a3 ! i \<le> cb_indptr a3 ! j"
      unfolding t by simp_all
    show "?P2 t'"
      using copy_layer_inv[OF st[unfolded t t'] p1 p3 p4 p5] p2 unfolding t' by simp
  qed
  then have lod0: "lod \<noteq> []" "lod ! 0 = 0" and J: "?J b" by simp_all
  have "(case (np', lod, b) of (np, lod, b) \<Rightarrow> length lod) =
        (case (np, [0, lo ! nh - lo ! (nh - 1)], ?b0) of (np, lod, b) \<Rightarrow> length lod) +
        length (rev [0..<nh - 1])"
  proof (rule foldM_err_count[OF f2])
    fix x t t'
    assume st: "copy_layer lo sv' nl el lvm x t = Inr t'"
    obtain a1 a2 a3 where t: "t = (a1, a2, a3)" by (cases t)
    obtain b1 b2 b3 where t': "t' = (b1, b2, b3)" by (cases t')
    from st have "b2 = a2 @ [last a2 + (lo ! (x + 1) - lo ! x)]"
      unfolding t t' copy_layer_def Let_def by (simp split: if_splits sum.splits)
    then have "length b2 = Suc (length a2)" by simp
    then show "(case t' of (np, lod, b) \<Rightarrow> length lod) =
               Suc (case t of (np, lod, b) \<Rightarrow> length lod)"
      unfolding t t' by simp
  qed
  then have lodlen: "length lod = nh + 1" using nh by simp
  have last_lod: "last lod = length nm"
    using lod0(1) lodlen lodn nm by (simp add: last_conv_nth)
  have iplen: "length (cb_indptr b) = ?L" using J by blast
  have ip_ne: "cb_indptr b \<noteq> []" using iplen by auto
  have edges: "length (cb_edge_map b) = ne" using J row ne by simp
  have ip_last: "last (cb_indptr b) = length (cb_edge_map b)"
    using ip_ne iplen row ne edges by (simp add: last_conv_nth)
  have ip_sorted: "sorted (cb_indptr b)"
    unfolding sorted_iff_nth_mono using J row by auto
  have "length fod = length [0::nat] + length [0..<length lo - 2]"
    by (rule foldM_err_count[OF f3]) (rule copy_flow_offset_length)
  then have fod_ne: "fod \<noteq> []" by auto
  then have "length fod = nh" using fodl nh by (cases fod) auto
  then have last_fod: "last fod = length (cb_edge_map b)"
    using fod_ne fodn edges by (simp add: last_conv_nth)
  show ?thesis
    unfolding NodeFlow_invariants_def
    using lod0 last_lod fod_ne last_fod ip_ne ip_sorted ip_last valid
    by (simp add: csr nfn nfe nfl nff)
qed


lemma SampleSubgraph_invariants:
  assumes "SampleSubgraph gr seeds p et nh k a g = Inr (nf, g')"
    and "(if et = ''in'' then GetInCSR (ig_views gr) else GetOutCSR (ig_views gr)) =
           Inr (csr, views')"
    and "\<forall>x \<in> set (indices csr). x < N"
    and "\<forall>s \<in> set seeds. s < N"
    and "p \<noteq> None \<longrightarrow> (\<forall>i. behind_vids (ig_behind gr) i < N)"
  shows "NodeFlow_invariants N nf"
proof -
  obtain m0 sv0 where seeds: "add_seeds seeds [] [] = (m0, sv0)"
    by (cases "add_seeds seeds [] []")
  let ?s0 = "\<lparr> st_sub_vers = sv0, st_sub_ver_map = m0, st_neigh_pos = [],
               st_neighbor_list = [], st_edge_list = [], st_num_edges = 0, st_rng = g \<rparr>"
  from assms(1) obtain lo s where
    f: "foldM_err (expand_layer (ig_behind gr) p (data csr) (indices csr) (indptr csr) k a)
          [1..<nh]
          ((replicate (nh + 1) 0)[1 := length sv0], ?s0) = Inr (lo, s)"
    and c: "ConstructNodeFlow (st_neighbor_list s) (st_edge_list s) lo (st_sub_vers s)
              (st_neigh_pos s) et (st_num_edges s) nh = Inr nf"
    unfolding SampleSubgraph_def assms(2) seeds
    by (simp split: if_splits sum.splits prod.splits)
  have sv0: "\<forall>q \<in> set sv0. fst q < N"
    using add_seeds_subset[OF seeds] assms(4) by fastforce
  let ?P = "\<lambda>st. case st of (lo, s) \<Rightarrow> \<forall>q \<in> set (st_sub_vers s). fst q < N"
  have "?P (lo, s)"
  proof (rule foldM_err_inv[OF f, where P = ?P])
    show "?P ((replicate (nh + 1) 0)[1 := length sv0], ?s0)"
      unfolding prod.case using sv0 by simp
  next
    fix x t t'
    assume pt: "?P t"
      and st: "expand_layer (ig_behind gr) p (data csr) (indices csr) (indptr csr) k a x t =
                 Inr t'"
    obtain a1 a2 where t: "t = (a1, a2)" by (cases t)
    obtain b1 b2 where t': "t' = (b1, b2)" by (cases t')
    from pt have pa: "\<forall>q \<in> set (st_sub_vers a2). fst q < N" unfolding t prod.case .
    from expand_layer_valid[OF st[unfolded t t'] assms(3) pa assms(5)] show "?P t'"
      unfolding t' prod.case .
  qed
  then have "\<forall>q \<in> set (st_sub_vers s). fst q < N" unfolding prod.case .
  then show ?thesis by (rule ConstructNodeFlow_invariants[OF c])
qed

text \<open>The layer-wise sampler draws its vertices from the column indices of the
  graph, its layer sizes add up to the length of the node mapping, and its rows
  are pushed with the running number of edges.\<close>

lemma insert_all_set: "set (insert_all m xs) = set m \<union> set xs"
  by (induction xs arbitrary: m) auto

lemma csr_row_subset: "csr_row ip xs src = Inr ns \<Longrightarrow> set ns \<subseteq> set xs"
  unfolding csr_row_def by (auto split: if_splits dest: in_set_takeD in_set_dropD)

lemma add_candidates_subset:
  "add_candidates ip ind src cs = Inr cs' \<Longrightarrow> set cs' \<subseteq> set cs \<union> set ind"
  unfolding add_candidates_def
  using csr_row_subset[of ip ind src]
  by (auto simp: insert_all_set split: sum.splits)

lemma count_draw_keys: "fst ` set (count_draw d occ) = insert d (fst ` set occ)"
  by (induction d occ rule: count_draw.induct) auto

lemma draw_candidate_keys:
  assumes "draw_candidate cv j (occ, rs) = Inr (occ', rs')"
  shows "fst ` set occ' \<subseteq> fst ` set occ \<union> set cv"
proof -
  from assms obtain r where cv: "cv \<noteq> []"
    and occ': "occ' = count_draw (cv ! (r mod length cv)) occ"
    unfolding draw_candidate_def by (auto split: list.splits if_splits)
  have "cv ! (r mod length cv) \<in> set cv" using cv by simp
  then show ?thesis unfolding occ' count_draw_keys by blast
qed

lemma construct_layer_inv:
  assumes "construct_layer ord ip ind sz (nm, actl, cur, nxt, rs) =
             Inr (nm', actl', cur', nxt', rs')"
    and "\<forall>x \<in> set ind. x < N" and "\<forall>v \<in> set nm. v < N"
    and "sum_list actl = length nm" and "nxt = length nm"
    and "\<forall>xs. set (set_order ord xs) = set xs" and "\<forall>ys. set (map_order ord ys) = set ys"
  shows "(\<forall>v \<in> set nm'. v < N) \<and> sum_list actl' = length nm' \<and> nxt' = length nm'"
proof -
  from assms(1) obtain cs occ where
    f1: "foldM_err (add_candidates ip ind) (take (nxt - cur) (drop cur nm)) [] = Inr cs"
    and f2: "foldM_err (draw_candidate (set_order ord cs)) [0..<sz] ([], rs) = Inr (occ, rs')"
    and nm': "nm' = nm @ map fst (map_order ord occ)"
    and actl': "actl' = actl @ [length nm' - nxt]"
    and nxt': "nxt' = length nm'"
    unfolding construct_layer_def Let_def
    by (auto split: sum.splits prod.splits)
  define cv where "cv = set_order ord cs"
  note f2 = f2 [folded cv_def]
  have "set cs \<subseteq> set ind"
  proof (rule foldM_err_inv[OF f1, where P = "\<lambda>c. set c \<subseteq> set ind"])
    show "set [] \<subseteq> set ind" by simp
  next
    fix x t t'
    assume "set t \<subseteq> set ind" and "add_candidates ip ind x t = Inr t'"
    then show "set t' \<subseteq> set ind" using add_candidates_subset by blast
  qed
  then have cv: "set cv \<subseteq> set ind" unfolding cv_def using assms(6) by simp
  let ?P = "\<lambda>st. case st of (occ, rs) \<Rightarrow> fst ` set occ \<subseteq> set cv"
  have "?P (occ, rs')"
  proof (rule foldM_err_inv[OF f2, where P = ?P])
    show "?P ([], rs)" by simp
  next
    fix x t t'
    assume pt: "?P t" and st: "draw_candidate cv x t = Inr t'"
    obtain a1 a2 where t: "t = (a1, a2)" by (cases t)
    obtain b1 b2 where t': "t' = (b1, b2)" by (cases t')
    from pt have "fst ` set a1 \<subseteq> set cv" unfolding t prod.case .
    with draw_candidate_keys[OF st[unfolded t t']] show "?P t'"
      unfolding t' prod.case by blast
  qed
  then have "fst ` set occ \<subseteq> set ind" using cv unfolding prod.case by blast
  then have occ: "fst ` set (map_order ord occ) \<subseteq> set ind" using assms(7) by simp
  have "\<forall>v \<in> set nm'. v < N" unfolding nm' using assms(2,3) occ by auto
  moreover have "sum_list actl' = length nm'" unfolding actl' using assms(4,5) nm' by simp
  ultimately show ?thesis using nxt' by blast
qed

lemma push_offsets_props:
  "lo \<noteq> [] \<Longrightarrow> push_offsets lo szs \<noteq> [] \<and> push_offsets lo szs ! 0 = lo ! 0 \<and>
     last (push_offsets lo szs) = last lo + sum_list szs"
proof (induction szs arbitrary: lo)
  case Nil
  then show ?case by simp
next
  case (Cons sz szs)
  have "lo @ [sz + last lo] \<noteq> []" by simp
  from Cons.IH[OF this] show ?case using Cons.prems by (simp add: nth_append)
qed

lemma ConstructLayers_props:
  assumes "ConstructLayers ord ip ind seeds ls rs = Inr ((lo, nm, actl), rs')"
    and "\<forall>x \<in> set ind. x < N" and "\<forall>s \<in> set seeds. s < N"
    and "\<forall>xs. set (set_order ord xs) = set xs" and "\<forall>ys. set (map_order ord ys) = set ys"
  shows "lo \<noteq> [] \<and> lo ! 0 = 0 \<and> last lo = length nm \<and> (\<forall>v \<in> set nm. v < N)"
proof -
  from assms(1) obtain nm0 actl0 cur nxt where
    f: "foldM_err (construct_layer ord ip ind) (rev ls)
          (seeds, [length seeds], 0, length seeds, rs) = Inr (nm0, actl0, cur, nxt, rs')"
    and lo: "lo = push_offsets [0] (rev actl0)" and nm: "nm = rev nm0"
    unfolding ConstructLayers_def by (auto split: sum.splits prod.splits)
  let ?P = "\<lambda>st. case st of (nm, actl, cur, nxt, rs) \<Rightarrow>
              (\<forall>v \<in> set nm. v < N) \<and> sum_list actl = length nm \<and> nxt = length nm"
  have "?P (nm0, actl0, cur, nxt, rs')"
  proof (rule foldM_err_inv[OF f, where P = ?P])
    show "?P (seeds, [length seeds], 0, length seeds, rs)"
      unfolding prod.case using assms(3) by simp
  next
    fix x t t'
    assume pt: "?P t" and st: "construct_layer ord ip ind x t = Inr t'"
    obtain a1 a2 a3 a4 a5 where t: "t = (a1, a2, a3, a4, a5)" by (cases t)
    obtain b1 b2 b3 b4 b5 where t': "t' = (b1, b2, b3, b4, b5)" by (cases t')
    from pt have pa: "\<forall>v \<in> set a1. v < N" and pb: "sum_list a2 = length a1"
      and pc: "a4 = length a1"
      unfolding t prod.case by blast+
    from construct_layer_inv[OF st[unfolded t t'] assms(2) pa pb pc assms(4,5)] show "?P t'"
      unfolding t' prod.case .
  qed
  then have v: "\<forall>v \<in> set nm0. v < N" and sm: "sum_list actl0 = length nm0"
    unfolding prod.case by blast+
  have "[0::nat] \<noteq> []" by simp
  from push_offsets_props[OF this, of "rev actl0"] show ?thesis
    unfolding lo nm using v sm by simp
qed


lemma sorted_snoc_last:
  assumes "sorted xs" and "xs \<noteq> []" and "last xs \<le> (y::nat)"
  shows "sorted (xs @ [y])"
proof -
  have "x \<le> y" if "x \<in> set xs" for x
  proof -
    from that obtain i where i: "i < length xs" and x: "x = xs ! i"
      by (auto simp: in_set_conv_nth)
    have "xs ! i \<le> xs ! (length xs - 1)"
      using assms(1) i by (intro sorted_nth_mono) auto
    then show ?thesis using assms(2,3) x by (simp add: last_conv_nth)
  qed
  then show ?thesis using assms(1) by (simp add: sorted_append)
qed

lemma flow_row_inv:
  assumes "flow_row ip ind eids nm sm pos b = Inr b'"
    and "length (fb_sub_indices b) = length (fb_edge_mapping b)"
    and "fb_sub_indptr b \<noteq> []" and "sorted (fb_sub_indptr b)"
    and "last (fb_sub_indptr b) = length (fb_sub_indices b)"
  shows "length (fb_sub_indices b') = length (fb_edge_mapping b') \<and>
         fb_sub_indptr b' \<noteq> [] \<and> sorted (fb_sub_indptr b') \<and>
         last (fb_sub_indptr b') = length (fb_sub_indices b') \<and>
         fb_flow_offsets b' = fb_flow_offsets b \<and> fb_first b' = fb_first b"
proof -
  from assms(1) obtain sc where
    b': "b' = b\<lparr> fb_sub_indices := fb_sub_indices b @ map fst (sort_key fst sc),
                 fb_edge_mapping := fb_edge_mapping b @ map snd (sort_key fst sc),
                 fb_sub_indptr := fb_sub_indptr b @ [length (fb_sub_indices b) + length sc] \<rparr>"
    unfolding flow_row_def Let_def
    by (auto split: sum.splits if_splits)
  have "sorted (fb_sub_indptr b @ [length (fb_sub_indices b) + length sc])"
    by (rule sorted_snoc_last[OF assms(4,3)]) (simp add: assms(5))
  then show ?thesis unfolding b' using assms(2) by simp
qed

lemma construct_flow_inv:
  assumes "construct_flow ip ind eids nm actl i b = Inr b'"
    and "length (fb_sub_indices b) = length (fb_edge_mapping b)"
    and "fb_sub_indptr b \<noteq> []" and "sorted (fb_sub_indptr b)"
    and "last (fb_sub_indptr b) = length (fb_sub_indices b)"
  shows "length (fb_sub_indices b') = length (fb_edge_mapping b') \<and>
         fb_sub_indptr b' \<noteq> [] \<and> sorted (fb_sub_indptr b') \<and>
         last (fb_sub_indptr b') = length (fb_sub_indices b') \<and>
         fb_flow_offsets b' \<noteq> [] \<and> last (fb_flow_offsets b') = length (fb_sub_indices b')"
proof -
  let ?R = "\<lambda>b. length (fb_sub_indices b) = length (fb_edge_mapping b) \<and>
         fb_sub_indptr b \<noteq> [] \<and> sorted (fb_sub_indptr b) \<and>
         last (fb_sub_indptr b) = length (fb_sub_indices b)"
  from assms(1) obtain sm idxs b2 where
    f: "foldM_err (flow_row ip ind eids nm sm) idxs b = Inr b2"
    and b': "b' = b2\<lparr> fb_flow_offsets := fb_flow_offsets b2 @ [length (fb_sub_indices b2)],
                      fb_first := fb_first b + actl ! i \<rparr>"
    unfolding construct_flow_def Let_def
    by (auto split: sum.splits if_splits)
  have "?R b2"
  proof (rule foldM_err_inv[OF f, where P = ?R])
    show "?R b" using assms(2-5) by blast
  next
    fix x t t'
    assume "?R t" and st: "flow_row ip ind eids nm sm x t = Inr t'"
    then show "?R t'" using flow_row_inv[OF st] by blast
  qed
  then show ?thesis unfolding b' by simp
qed

lemma ConstructFlows_props:
  assumes "ConstructFlows ip ind eids nm actl = Inr (sip, si, se, fo, em)"
  shows "sip \<noteq> [] \<and> sorted sip \<and> last sip = length em \<and> fo \<noteq> [] \<and> last fo = length em"
proof -
  let ?b0 = "\<lparr> fb_sub_indptr = replicate (hd actl + 1) 0, fb_sub_indices = [],
               fb_flow_offsets = [0], fb_edge_mapping = [], fb_first = 0 \<rparr>"
  let ?R = "\<lambda>b. length (fb_sub_indices b) = length (fb_edge_mapping b) \<and>
         fb_sub_indptr b \<noteq> [] \<and> sorted (fb_sub_indptr b) \<and>
         last (fb_sub_indptr b) = length (fb_sub_indices b) \<and>
         fb_flow_offsets b \<noteq> [] \<and> last (fb_flow_offsets b) = length (fb_sub_indices b)"
  from assms obtain b where
    f: "foldM_err (construct_flow ip ind eids nm actl) [0..<length actl - 1] ?b0 = Inr b"
    and r: "sip = fb_sub_indptr b" "fo = fb_flow_offsets b" "em = fb_edge_mapping b"
    unfolding ConstructFlows_def
    by (auto split: sum.splits if_splits)
  have "?R b"
  proof (rule foldM_err_inv[OF f, where P = ?R])
    have "sorted (replicate (hd actl + 1) (0::nat))" by (rule sorted_replicate)
    moreover have "last (replicate (hd actl + 1) (0::nat)) = 0" by simp
    moreover have "replicate (hd actl + 1) (0::nat) \<noteq> []" by simp
    ultimately show "?R ?b0" by (simp del: replicate_Suc replicate.simps)
  next
    fix x t t'
    assume "?R t" and st: "construct_flow ip ind eids nm actl x t = Inr t'"
    then show "?R t'" using construct_flow_inv[OF st] by blast
  qed
  then show ?thesis unfolding r by simp
qed

lemma LayerUniformSample_invariants:
  assumes "LayerUniformSample ord gr seeds et ls rs = Inr (nf, rs')"
    and "(if et = ''in'' then GetInCSR (ig_views gr) else GetOutCSR (ig_views gr)) =
           Inr (csr, views')"
    and "\<forall>x \<in> set (indices csr). x < N"
    and "\<forall>s \<in> set seeds. s < N"
    and "\<forall>xs. set (set_order ord xs) = set xs" and "\<forall>ys. set (map_order ord ys) = set ys"
  shows "NodeFlow_invariants N nf"
proof -
  from assms(1) obtain lo nm actl sip si se fo em where
    cl: "ConstructLayers ord (indptr csr) (indices csr) seeds ls rs =
           Inr ((lo, nm, actl), rs')"
    and cf: "ConstructFlows (indptr csr) (indices csr) (data csr) nm actl =
               Inr (sip, si, se, fo, em)"
    and csr: "nf_csr nf = Some \<lparr> num_rows = length sip - 1, num_cols = length sip - 1,
                                  indptr = sip, indices = si, data = se \<rparr>"
    and nf: "nf_node_mapping nf = nm" "nf_edge_mapping nf = em"
            "nf_layer_offsets nf = lo" "nf_flow_offsets nf = fo"
    unfolding LayerUniformSample_def assms(2) Let_def nf_csr_def
    by (auto split: sum.splits if_splits prod.splits)
  from ConstructLayers_props[OF cl assms(3,4,5,6)] ConstructFlows_props[OF cf]
  show ?thesis unfolding NodeFlow_invariants_def by (simp add: csr nf)
qed

text \<open>
  The invariants of the node flows, where no access goes behind the arrays.  Let the
  CSR that the samplers read hold only vertex ids of the graph as column indices,
  and let the seeds be vertex ids of the graph.  A node flow that the neighbor
  sampler returns satisfies the invariants when the sampling is uniform, and in
  weighted sampling when the words behind the array of the column indices are
  vertex ids.  A node flow that the layer-wise sampler returns satisfies them for
  every iteration order of the hash containers.
\<close>

lemma sampler_invariants_within_arrays:
  assumes "(if edge_type = ''in'' then GetInCSR (ig_views gr) else GetOutCSR (ig_views gr)) =
             Inr (csr, views')"
    and "\<forall>x \<in> set (indices csr). x < num_rows csr"
    and "\<forall>s \<in> set seeds. s < num_rows csr"
  shows "((probability \<noteq> None \<longrightarrow> (\<forall>i. behind_vids (ig_behind gr) i < num_rows csr)) \<longrightarrow>
          (\<forall>nf g'. NeighborSample gr seeds edge_type num_hops expand_factor add_self_loop
                      probability g = Inr (nf, g') \<longrightarrow>
                    NodeFlow_invariants (num_rows csr) nf)) \<and>
         ((\<forall>xs. set (set_order ord xs) = set xs) \<and> (\<forall>ys. set (map_order ord ys) = set ys) \<longrightarrow>
          (\<forall>nf rs'. LayerUniformSample ord gr seeds edge_type layer_sizes rs = Inr (nf, rs') \<longrightarrow>
                    NodeFlow_invariants (num_rows csr) nf))"
proof (intro conjI allI impI)
  fix nf g'
  assume "probability \<noteq> None \<longrightarrow> (\<forall>i. behind_vids (ig_behind gr) i < num_rows csr)"
    and "NeighborSample gr seeds edge_type num_hops expand_factor add_self_loop probability g
            = Inr (nf, g')"
  then show "NodeFlow_invariants (num_rows csr) nf"
    unfolding NeighborSample_def using SampleSubgraph_invariants [OF _ assms] by blast
next
  fix nf rs'
  assume "(\<forall>xs. set (set_order ord xs) = set xs) \<and> (\<forall>ys. set (map_order ord ys) = set ys)"
    and "LayerUniformSample ord gr seeds edge_type layer_sizes rs = Inr (nf, rs')"
  then show "NodeFlow_invariants (num_rows csr) nf"
    using LayerUniformSample_invariants [OF _ assms] by blast
qed

text \<open>
  Claim C3: every entry of the node mapping of a node flow is a vertex id of the
  source graph.  The neighbor sampler breaks this on a graph, seeds and weights that
  are all valid.  In \<open>star4\<close> the vertex \<open>0\<close> has the three in-edges \<open>0, 1, 2\<close> from the
  vertices \<open>1, 2, 3\<close>; the weights of the edges are \<open>[0, 0, 1]\<close> and two neighbors are
  asked for.  The first draw takes position \<open>2\<close>, the only one of positive weight;
  the second finds all weights used up and descends to the padding leaf \<open>3\<close> of the
  heap.  \<^verbatim>\<open>GetNonUniformSample\<close> reads \<^verbatim>\<open>vid_list[3]\<close> and \<^verbatim>\<open>edge_id_list[3]\<close> without
  a check, behind the three entries of the arrays, and the sampler builds the node
  flow from what it read: with the words \<open>99\<close> and \<open>77\<close> there, the node mapping is
  \<open>[3, 99, 0]\<close> and the edge mapping \<open>[2, 77]\<close>, in a graph of four vertices.
\<close>

theorem C3_divergence:
  "\<exists>csr views' nf.
     GetInCSR (ig_views star4) = Inr (csr, views') \<and>
     num_rows csr = 4 \<and> indptr csr = [0, 3, 3, 3, 3] \<and> indices csr = [1, 2, 3] \<and>
     data csr = [0, 1, 2] \<and>
     SampleWithoutReplacement (ArrayHeap_new [0, 0, 1 :: int]) 2 [0, 0] = Some ([2, 3], []) \<and>
     NeighborSample star4 [0] ''in'' 1 2 False (Some [0, 0, 1 :: int]) ([], [0, 0]) =
       Inr (nf, ([], [])) \<and>
     nf_node_mapping nf = [3, 99, 0] \<and> nf_edge_mapping nf = [2, 77] \<and>
     nf_layer_offsets nf = [0, 2, 3] \<and> nf_flow_offsets nf = [0, 2] \<and>
     num_rows csr \<le> 99"
proof -
  let ?csr = "\<lparr>num_rows = 4, num_cols = 4, indptr = [0, 3, 3, 3, 3], indices = [1, 2, 3],
               data = [0, 1, 2]\<rparr>"
  let ?views = "\<lparr>in_csr = Some ?csr, out_csr = None,
                 coo = Some \<lparr>coo_num_rows = 4, coo_num_cols = 4, row = [1, 2, 3],
                              col = [0, 0, 0]\<rparr>\<rparr>"
  let ?nf = "\<lparr>nf_graph =
                \<lparr>in_csr = Some \<lparr>num_rows = 3, num_cols = 3, indptr = [0, 0, 0, 2],
                                 indices = [0, 1], data = [0, 1]\<rparr>,
                 out_csr = None, coo = None\<rparr>,
              nf_node_mapping = [3, 99, 0], nf_edge_mapping = [2, 77],
              nf_layer_offsets = [0, 2, 3], nf_flow_offsets = [0, 2]\<rparr>"
  have v: "GetInCSR (ig_views star4) = Inr (?csr, ?views)" by code_simp
  have d: "SampleWithoutReplacement (ArrayHeap_new [0, 0, 1 :: int]) 2 [0, 0] =
             Some ([2, 3], [])" by code_simp
  have n: "NeighborSample star4 [0] ''in'' 1 2 False (Some [0, 0, 1 :: int]) ([], [0, 0]) =
             Inr (?nf, ([], []))" by code_simp
  have "GetInCSR (ig_views star4) = Inr (?csr, ?views) \<and>
     num_rows ?csr = 4 \<and> indptr ?csr = [0, 3, 3, 3, 3] \<and> indices ?csr = [1, 2, 3] \<and>
     data ?csr = [0, 1, 2] \<and>
     SampleWithoutReplacement (ArrayHeap_new [0, 0, 1 :: int]) 2 [0, 0] = Some ([2, 3], []) \<and>
     NeighborSample star4 [0] ''in'' 1 2 False (Some [0, 0, 1 :: int]) ([], [0, 0]) =
       Inr (?nf, ([], [])) \<and>
     nf_node_mapping ?nf = [3, 99, 0] \<and> nf_edge_mapping ?nf = [2, 77] \<and>
     nf_layer_offsets ?nf = [0, 2, 3] \<and> nf_flow_offsets ?nf = [0, 2] \<and>
     num_rows ?csr \<le> 99"
    using v d n by simp
  then show ?thesis by blast
qed

subsection \<open>Validation of the transition probability\<close>

text \<open>
  Claim C9.  \<^verbatim>\<open>_CAPI_NeighborSampling\<close> returns node flows only for a probability array
  that is a floating-point vector of one dimension and either has length zero or
  is contiguous with as many elements as the graph has edges.  For a
  floating-point vector of a supported width: with length zero the call is the call
  of \<^verbatim>\<open>_CAPI_UniformSampling\<close> on the same arguments; with a nonzero length other than
  the number of edges it fails with the shape-mismatch error; and with the number
  of edges as its length, when contiguous, it samples with its elements as the
  probabilities.
\<close>

theorem C9_probability_validation:
  fixes probability :: "'a::{zero,plus,minus,times,ord} NDArray"
  shows
  "(\<forall>nflows. CAPI_NeighborSampling float_width_ok gr seed_nodes batch_start_id batch_size
                max_num_workers expand_factor num_hops neigh_type add_self_loop probability gs
                = Inr nflows \<longrightarrow>
        nd_dtype_code probability = kDLFloat \<and> length (nd_shape probability) = 1 \<and>
        (nd_shape probability ! 0 = 0 \<or>
         nd_shape probability ! 0 = ig_NumEdges gr \<and> nd_contiguous probability)) \<and>
   (nd_dtype_code probability = kDLFloat \<and> float_width_ok (nd_dtype_bits probability) \<and>
    length (nd_shape probability) = 1 \<longrightarrow>
      (nd_shape probability ! 0 = 0 \<longrightarrow>
         CAPI_NeighborSampling float_width_ok gr seed_nodes batch_start_id batch_size
           max_num_workers expand_factor num_hops neigh_type add_self_loop probability gs =
         CAPI_UniformSampling gr seed_nodes batch_start_id batch_size max_num_workers
           expand_factor num_hops neigh_type add_self_loop gs) \<and>
      (nd_shape probability ! 0 \<noteq> 0 \<and> nd_shape probability ! 0 \<noteq> ig_NumEdges gr \<longrightarrow>
         CAPI_NeighborSampling float_width_ok gr seed_nodes batch_start_id batch_size
           max_num_workers expand_factor num_hops neigh_type add_self_loop probability gs =
         Inl ProbabilityShapeMismatch) \<and>
      (nd_shape probability ! 0 \<noteq> 0 \<and> nd_shape probability ! 0 = ig_NumEdges gr \<and>
       nd_contiguous probability \<longrightarrow>
         CAPI_NeighborSampling float_width_ok gr seed_nodes batch_start_id batch_size
           max_num_workers expand_factor num_hops neigh_type add_self_loop probability gs =
         NeighborSamplingImpl gr seed_nodes batch_start_id batch_size max_num_workers
           expand_factor num_hops neigh_type add_self_loop (Some (nd_data probability)) gs))"
  unfolding CAPI_NeighborSampling_def CAPI_UniformSampling_def
  by (simp split: if_splits)

theorem C9_probability_validation_witness:
  "(\<exists>nflows.
      CAPI_NeighborSampling (\<lambda>b. b = 32 \<or> b = 64) path5 [4, 3, 2] 0 2 4 10 2 ''in'' False
        \<lparr>nd_dtype_code = kDLFloat, nd_dtype_bits = 32, nd_shape = [0], nd_contiguous = False,
          nd_data = [] :: int list\<rparr> [([], []), ([], [])] = Inr nflows \<and>
      CAPI_UniformSampling path5 [4, 3, 2] 0 2 4 10 2 ''in'' False
        [([], []), ([], []) :: int rng] = Inr nflows) \<and>
   CAPI_NeighborSampling (\<lambda>b. b = 32 \<or> b = 64) path5 [4, 3, 2] 0 2 4 10 2 ''in'' False
     \<lparr>nd_dtype_code = kDLFloat, nd_dtype_bits = 32, nd_shape = [3], nd_contiguous = True,
       nd_data = [5, 5, 5 :: int]\<rparr> [([], []), ([], [])] = Inl ProbabilityShapeMismatch"
proof -
  let ?fw = "\<lambda>b::nat. b = 32 \<or> b = 64"
  let ?p0 = "\<lparr>nd_dtype_code = kDLFloat, nd_dtype_bits = 32, nd_shape = [0],
              nd_contiguous = False, nd_data = [] :: int list\<rparr>"
  let ?p3 = "\<lparr>nd_dtype_code = kDLFloat, nd_dtype_bits = 32, nd_shape = [3],
              nd_contiguous = True, nd_data = [5, 5, 5 :: int]\<rparr>"
  let ?gs = "[([], []), ([], [])] :: int rng list"
  have h0: "nd_dtype_code ?p0 = kDLFloat \<and> ?fw (nd_dtype_bits ?p0) \<and>
            length (nd_shape ?p0) = 1" by simp
  have z0: "nd_shape ?p0 ! 0 = 0" by simp
  have h3: "nd_dtype_code ?p3 = kDLFloat \<and> ?fw (nd_dtype_bits ?p3) \<and>
            length (nd_shape ?p3) = 1" by simp
  have z3: "nd_shape ?p3 ! 0 \<noteq> 0 \<and> nd_shape ?p3 ! 0 \<noteq> ig_NumEdges path5" by code_simp
  have "\<not> isl (CAPI_UniformSampling path5 [4, 3, 2] 0 2 4 10 2 ''in'' False ?gs)"
    by code_simp
  then have u: "\<exists>nflows. CAPI_UniformSampling path5 [4, 3, 2] 0 2 4 10 2 ''in'' False ?gs =
                  Inr nflows"
    by (cases "CAPI_UniformSampling path5 [4, 3, 2] 0 2 4 10 2 ''in'' False ?gs") simp_all
  have e0: "CAPI_NeighborSampling ?fw path5 [4, 3, 2] 0 2 4 10 2 ''in'' False ?p0 ?gs =
            CAPI_UniformSampling path5 [4, 3, 2] 0 2 4 10 2 ''in'' False ?gs"
    using C9_probability_validation[of ?fw path5 "[4, 3, 2]" 0 2 4 10 2 "''in''" False ?p0 ?gs]
      h0 z0 by blast
  have e3: "CAPI_NeighborSampling ?fw path5 [4, 3, 2] 0 2 4 10 2 ''in'' False ?p3 ?gs =
            Inl ProbabilityShapeMismatch"
    using C9_probability_validation[of ?fw path5 "[4, 3, 2]" 0 2 4 10 2 "''in''" False ?p3 ?gs]
      h3 z3 by blast
  from u e0 e3 show ?thesis by (simp only:) blast
qed

end
